theory Spec2Isabelle
  imports Main
begin

section \<open>The handle socket of windows/winhsock.c\<close>

text \<open>
  A shallow embedding of \<^verbatim>\<open>src/windows/winhsock.c\<close>: the \<^verbatim>\<open>HandleSocket\<close> structure, the
  callbacks the handle layer invokes (\<^verbatim>\<open>handle_gotdata\<close>, \<^verbatim>\<open>handle_stderr\<close>,
  \<^verbatim>\<open>handle_sentdata\<close>), the entries of the socket vtable, the top-level callback
  \<^verbatim>\<open>handle_socket_unfreeze\<close> and the constructor \<^verbatim>\<open>make_handle_socket\<close>.

  Every call the file makes to code outside it (the plug, the handle layer, the callback
  queue, the allocator) is appended to a trace, so that what was called, with which
  arguments and in which order, can be stated. A C \<^verbatim>\<open>assert\<close> that fails and an access to
  the structure after \<^verbatim>\<open>sfree\<close> are results of their own (\<open>Inl\<close>).
  \<^verbatim>\<open>sk_handle_peer_info\<close> only asks the platform about \<^verbatim>\<open>send_H\<close> and writes nothing; it is
  not modelled.
\<close>

subsection \<open>Data\<close>

text \<open>A C \<^verbatim>\<open>int\<close> is modelled by its value; pointers and Windows handles by a number, 0 for
  the null pointer.\<close>

type_synonym cint = int
type_synonym HANDLE = nat
type_synonym Plug = nat

definition NULL :: nat where
  "NULL = 0"

definition INT_MAX :: cint where
  "INT_MAX = 2147483647"

definition INT_MIN :: cint where
  "INT_MIN = - 2147483648"

text \<open>Unary minus on a C \<^verbatim>\<open>int\<close>, with the two's-complement wrap-around written out: the
  only value whose negation does not fit is \<^verbatim>\<open>INT_MIN\<close>, which negates to itself.\<close>

definition neg_cint :: "cint \<Rightarrow> cint" where
  "neg_cint x = (if x = INT_MIN then INT_MIN else - x)"

datatype frozen_state =
    UNFROZEN  \<comment> \<open>reading as normal\<close>
  | FREEZING  \<comment> \<open>have been set to frozen but winhandl is still reading\<close>
  | FROZEN    \<comment> \<open>really frozen - winhandl has been throttled\<close>
  | THAWING   \<comment> \<open>we're gradually releasing our remaining data\<close>

text \<open>Modelled from the spec: the \<^verbatim>\<open>struct handle\<close> of the handle layer (winhandl.c) is not
  under src/. A worker token is opaque to this file; it is represented by the registration
  that produced it: the Windows handle, the callback and the flags.\<close>

datatype callback = Cb_handle_gotdata | Cb_handle_stderr | Cb_handle_sentdata

datatype flag = HANDLE_FLAG_OVERLAPPED

datatype handle =
    Handle_input_new HANDLE callback "flag list"
  | Handle_output_new HANDLE callback "flag list"

record HandleSocket =
  send_H :: HANDLE
  recv_H :: HANDLE
  stderr_H :: HANDLE
  send_h :: handle
  recv_h :: handle
  stderr_h :: "handle option"  \<comment> \<open>assigned only when \<^verbatim>\<open>stderr_H\<close> is not null\<close>
  frozen :: frozen_state
  inputdata :: string          \<comment> \<open>the bytes held by the bufchain\<close>
  stderrdata :: string
  defer_close :: bool
  deferred_close :: bool
  error :: "string option"
  plug :: Plug

datatype queue = Inputdata | Stderrdata

datatype effect =
    PlugClosing Plug "string option" cint cint  \<comment> \<open>plug, error message, error code, calling_back\<close>
  | PlugReceive Plug cint string                \<comment> \<open>plug, urgent, the \<^verbatim>\<open>len\<close> bytes at \<^verbatim>\<open>data\<close>\<close>
  | PlugSent Plug cint
  | LogProxyStderr Plug string
  | HandleFree handle
  | CloseHandle HANDLE
  | BufchainClear queue
  | Sfree
  | HandleWrite handle string cint
  | HandleWriteEof handle
  | HandleUnthrottle handle cint
  | QueueToplevelCallback

datatype failure =
    Assert_not_throttled     \<comment> \<open>\<^verbatim>\<open>assert(hs->frozen != FROZEN && hs->frozen != THAWING)\<close>\<close>
  | Assert_prefix_len        \<comment> \<open>\<^verbatim>\<open>assert(len > 0)\<close>\<close>
  | Assert_inputdata_empty   \<comment> \<open>\<^verbatim>\<open>assert(bufchain_size(&hs->inputdata) == 0)\<close>\<close>
  | Use_after_free           \<comment> \<open>the structure is read or written after \<^verbatim>\<open>sfree(hs)\<close>\<close>

text \<open>The memory cell of one socket: its fields, whether it is still allocated, and the
  calls made so far to the outside.\<close>

record world =
  hs :: HandleSocket
  live :: bool
  trace :: "effect list"

text \<open>What this file takes from the rest of the program and cannot see: how long the first
  contiguous block of a bufchain is, the text of a Windows error code, and the backlog the
  handle layer reports for a write.\<close>

record externs =
  bufchain_prefix_len :: "string \<Rightarrow> nat"
  win_strerror :: "cint \<Rightarrow> string"
  handle_write :: "handle \<Rightarrow> string \<Rightarrow> cint \<Rightarrow> cint"

text \<open>The entries of the socket vtable a caller can invoke, with their arguments
  (\<^verbatim>\<open>peer_info\<close> apart).\<close>

datatype sock_call =
    Sk_plug Plug
  | Sk_close
  | Sk_write string cint
  | Sk_write_oob string cint
  | Sk_write_eof
  | Sk_flush
  | Sk_set_frozen cint
  | Sk_socket_error

subsection \<open>The byte queue\<close>

text \<open>Modelled from the spec: the bufchain functions (misc.c) are not under src/. The spec
  describes an ordered buffer of pending bytes with append, peek of the largest contiguous
  prefix, consume-N, clear and size. The queue is the list of its bytes; the length of the
  contiguous prefix depends on the queue's internal blocks and is a parameter
  (\<^const>\<open>bufchain_prefix_len\<close>).\<close>

definition bufchain_init :: string where
  "bufchain_init = []"

definition bufchain_add :: "string \<Rightarrow> string \<Rightarrow> cint \<Rightarrow> string" where
  "bufchain_add ch data len = ch @ take (nat len) data"

definition bufchain_size :: "string \<Rightarrow> cint" where
  "bufchain_size ch = int (length ch)"

definition bufchain_prefix :: "externs \<Rightarrow> string \<Rightarrow> string \<times> cint" where
  "bufchain_prefix X ch =
     (let data = take (bufchain_prefix_len X ch) ch in (data, int (length data)))"

definition bufchain_consume :: "string \<Rightarrow> cint \<Rightarrow> string" where
  "bufchain_consume ch len = drop (nat len) ch"

definition bufchain_clear :: "string \<Rightarrow> string" where
  "bufchain_clear ch = []"

subsection \<open>The socket vtable\<close>

definition emit :: "effect \<Rightarrow> world \<Rightarrow> world" where
  "emit e w = w\<lparr>trace := trace w @ [e]\<rparr>"

definition sk_handle_plug :: "world \<Rightarrow> Plug \<Rightarrow> failure + (Plug \<times> world)" where
  "sk_handle_plug w p =
     (if \<not> live w then Inl Use_after_free
      else let ret = plug (hs w) in
        Inr (ret, if p \<noteq> NULL then w\<lparr>hs := (hs w)\<lparr>plug := p\<rparr>\<rparr> else w))"

definition sk_handle_close :: "world \<Rightarrow> failure + world" where
  "sk_handle_close w =
     (if \<not> live w then Inl Use_after_free
      else if defer_close (hs w) then Inr (w\<lparr>hs := (hs w)\<lparr>deferred_close := True\<rparr>\<rparr>)
      else
        let w1 = emit (HandleFree (send_h (hs w))) w;
            w2 = emit (HandleFree (recv_h (hs w1))) w1;
            w3 = emit (CloseHandle (send_H (hs w2))) w2;
            w4 = (if recv_H (hs w3) \<noteq> send_H (hs w3)
                  then emit (CloseHandle (recv_H (hs w3))) w3 else w3);
            w5 = emit (BufchainClear Inputdata)
                   (w4\<lparr>hs := (hs w4)\<lparr>inputdata := bufchain_clear (inputdata (hs w4))\<rparr>\<rparr>);
            w6 = emit (BufchainClear Stderrdata)
                   (w5\<lparr>hs := (hs w5)\<lparr>stderrdata := bufchain_clear (stderrdata (hs w5))\<rparr>\<rparr>)
        in Inr ((emit Sfree w6)\<lparr>live := False\<rparr>))"

definition sk_handle_write :: "externs \<Rightarrow> world \<Rightarrow> string \<Rightarrow> cint \<Rightarrow> failure + (cint \<times> world)" where
  "sk_handle_write X w data len =
     (if \<not> live w then Inl Use_after_free
      else Inr (handle_write X (send_h (hs w)) data len,
                emit (HandleWrite (send_h (hs w)) data len) w))"

definition sk_handle_write_oob :: "externs \<Rightarrow> world \<Rightarrow> string \<Rightarrow> cint \<Rightarrow> failure + (cint \<times> world)" where
  "sk_handle_write_oob X w data len = sk_handle_write X w data len"

definition sk_handle_write_eof :: "world \<Rightarrow> failure + world" where
  "sk_handle_write_eof w =
     (if \<not> live w then Inl Use_after_free
      else Inr (emit (HandleWriteEof (send_h (hs w))) w))"

definition sk_handle_flush :: "world \<Rightarrow> failure + world" where
  "sk_handle_flush w = Inr w"

definition sk_handle_set_frozen :: "world \<Rightarrow> cint \<Rightarrow> failure + world" where
  "sk_handle_set_frozen w is_frozen =
     (if \<not> live w then Inl Use_after_free
      else if is_frozen \<noteq> 0 then
        (case frozen (hs w) of
           FREEZING \<Rightarrow> Inr w
         | FROZEN \<Rightarrow> Inr w
         | THAWING \<Rightarrow> Inr (w\<lparr>hs := (hs w)\<lparr>frozen := FROZEN\<rparr>\<rparr>)
         | UNFROZEN \<Rightarrow> Inr (w\<lparr>hs := (hs w)\<lparr>frozen := FREEZING\<rparr>\<rparr>))
      else
        (case frozen (hs w) of
           UNFROZEN \<Rightarrow> Inr w
         | THAWING \<Rightarrow> Inr w
         | FREEZING \<Rightarrow>
             if bufchain_size (inputdata (hs w)) = 0
             then Inr (w\<lparr>hs := (hs w)\<lparr>frozen := UNFROZEN\<rparr>\<rparr>)
             else Inl Assert_inputdata_empty
         | FROZEN \<Rightarrow>
             Inr (emit QueueToplevelCallback (w\<lparr>hs := (hs w)\<lparr>frozen := THAWING\<rparr>\<rparr>))))"

definition sk_handle_socket_error :: "world \<Rightarrow> failure + string option" where
  "sk_handle_socket_error w =
     (if \<not> live w then Inl Use_after_free else Inr (error (hs w)))"

text \<open>A call through the vtable, its return value dropped: what a caller that only acts on
  the socket does to it.\<close>

fun sk_call :: "externs \<Rightarrow> sock_call \<Rightarrow> world \<Rightarrow> failure + world" where
  "sk_call X (Sk_plug p) w = map_sum id snd (sk_handle_plug w p)"
| "sk_call X Sk_close w = sk_handle_close w"
| "sk_call X (Sk_write data len) w = map_sum id snd (sk_handle_write X w data len)"
| "sk_call X (Sk_write_oob data len) w = map_sum id snd (sk_handle_write_oob X w data len)"
| "sk_call X Sk_write_eof w = sk_handle_write_eof w"
| "sk_call X Sk_flush w = sk_handle_flush w"
| "sk_call X (Sk_set_frozen is_frozen) w = sk_handle_set_frozen w is_frozen"
| "sk_call X Sk_socket_error w = map_sum id (\<lambda>_. w) (sk_handle_socket_error w)"

fun sk_calls :: "externs \<Rightarrow> sock_call list \<Rightarrow> world \<Rightarrow> failure + world" where
  "sk_calls X [] w = Inr w"
| "sk_calls X (c # cs) w =
     (case sk_call X c w of Inl e \<Rightarrow> Inl e | Inr w' \<Rightarrow> sk_calls X cs w')"

subsection \<open>The plug\<close>

text \<open>A call to the plug is recorded in the trace. The plug may call back into the socket
  before it returns (the source: ``Be careful of re-entrance''); \<open>react\<close> is the list of
  vtable calls it makes, in order, during this callback.\<close>

definition plug_closing ::
  "externs \<Rightarrow> world \<Rightarrow> string option \<Rightarrow> cint \<Rightarrow> cint \<Rightarrow> sock_call list \<Rightarrow> failure + world" where
  "plug_closing X w error_msg error_code calling_back react =
     sk_calls X react (emit (PlugClosing (plug (hs w)) error_msg error_code calling_back) w)"

definition plug_receive ::
  "externs \<Rightarrow> world \<Rightarrow> cint \<Rightarrow> string \<Rightarrow> cint \<Rightarrow> sock_call list \<Rightarrow> failure + world" where
  "plug_receive X w urgent data len react =
     sk_calls X react (emit (PlugReceive (plug (hs w)) urgent (take (nat len) data)) w)"

definition plug_sent :: "externs \<Rightarrow> world \<Rightarrow> cint \<Rightarrow> sock_call list \<Rightarrow> failure + world" where
  "plug_sent X w bufsize react =
     sk_calls X react (emit (PlugSent (plug (hs w)) bufsize) w)"

subsection \<open>Callbacks from the handle layer\<close>

definition handle_gotdata ::
  "externs \<Rightarrow> world \<Rightarrow> string \<Rightarrow> cint \<Rightarrow> sock_call list \<Rightarrow> failure + (cint \<times> world)" where
  "handle_gotdata X w data len react =
     (if \<not> live w then Inl Use_after_free
      else if len < 0 then
        (case plug_closing X w (Some ''Read error from handle'') 0 0 react of
           Inl e \<Rightarrow> Inl e | Inr w' \<Rightarrow> Inr (0, w'))
      else if len = 0 then
        (case plug_closing X w None 0 0 react of
           Inl e \<Rightarrow> Inl e | Inr w' \<Rightarrow> Inr (0, w'))
      else if \<not> (frozen (hs w) \<noteq> FROZEN \<and> frozen (hs w) \<noteq> THAWING) then Inl Assert_not_throttled
      else if frozen (hs w) = FREEZING then
        Inr (INT_MAX,
             w\<lparr>hs := (hs w)\<lparr>inputdata := bufchain_add (inputdata (hs w)) data len,
                             frozen := FROZEN\<rparr>\<rparr>)
      else
        (case plug_receive X w 0 data len react of
           Inl e \<Rightarrow> Inl e | Inr w' \<Rightarrow> Inr (0, w')))"

text \<open>Modelled from the spec: \<^verbatim>\<open>log_proxy_stderr\<close> is not under src/. The spec: side-channel
  bytes are appended to the side queue and forwarded to a logging hook.\<close>

definition log_proxy_stderr :: "world \<Rightarrow> string \<Rightarrow> cint \<Rightarrow> world" where
  "log_proxy_stderr w data len =
     emit (LogProxyStderr (plug (hs w)) (take (nat len) data))
       (w\<lparr>hs := (hs w)\<lparr>stderrdata := bufchain_add (stderrdata (hs w)) data len\<rparr>\<rparr>)"

definition handle_stderr :: "world \<Rightarrow> string \<Rightarrow> cint \<Rightarrow> failure + (cint \<times> world)" where
  "handle_stderr w data len =
     (if len > 0 then
        (if \<not> live w then Inl Use_after_free else Inr (0, log_proxy_stderr w data len))
      else Inr (0, w))"

definition handle_sentdata :: "externs \<Rightarrow> world \<Rightarrow> cint \<Rightarrow> sock_call list \<Rightarrow> failure + world" where
  "handle_sentdata X w new_backlog react =
     (if \<not> live w then Inl Use_after_free
      else if new_backlog < 0 then
        plug_closing X w (Some (win_strerror X (neg_cint new_backlog))) (neg_cint new_backlog) 0 react
      else plug_sent X w new_backlog react)"

subsection \<open>Thawing\<close>

definition handle_socket_unfreeze :: "externs \<Rightarrow> world \<Rightarrow> sock_call list \<Rightarrow> failure + world" where
  "handle_socket_unfreeze X w react =
     (if \<not> live w then Inl Use_after_free
      else if frozen (hs w) \<noteq> THAWING then Inr w
      else
        let (data, len) = bufchain_prefix X (inputdata (hs w)) in
        if \<not> len > 0 then Inl Assert_prefix_len
        else
          (case plug_receive X (w\<lparr>hs := (hs w)\<lparr>defer_close := True\<rparr>\<rparr>) 0 data len react of
             Inl e \<Rightarrow> Inl e
           | Inr w1 \<Rightarrow>
               if \<not> live w1 then Inl Use_after_free
               else
                 let w2 = w1\<lparr>hs := (hs w1)\<lparr>inputdata := bufchain_consume (inputdata (hs w1)) len\<rparr>\<rparr>;
                     w3 = w2\<lparr>hs := (hs w2)\<lparr>defer_close := False\<rparr>\<rparr>
                 in
                   if deferred_close (hs w3) then sk_handle_close w3
                   else if bufchain_size (inputdata (hs w3)) > 0
                   then Inr (emit QueueToplevelCallback w3)
                   else Inr (emit (HandleUnthrottle (recv_h (hs w3)) 0)
                               (w3\<lparr>hs := (hs w3)\<lparr>frozen := UNFROZEN\<rparr>\<rparr>))))"

subsection \<open>Creation\<close>

definition make_handle_socket :: "HANDLE \<Rightarrow> HANDLE \<Rightarrow> HANDLE \<Rightarrow> Plug \<Rightarrow> cint \<Rightarrow> world" where
  "make_handle_socket send_H' recv_H' stderr_H' plug' overlapped =
     (let flags = (if overlapped \<noteq> 0 then [HANDLE_FLAG_OVERLAPPED] else []) in
      \<lparr>hs = \<lparr>send_H = send_H',
             recv_H = recv_H',
             stderr_H = stderr_H',
             send_h = Handle_output_new send_H' Cb_handle_sentdata flags,
             recv_h = Handle_input_new recv_H' Cb_handle_gotdata flags,
             stderr_h = (if stderr_H' \<noteq> NULL
                         then Some (Handle_input_new stderr_H' Cb_handle_stderr flags)
                         else None),
             frozen = UNFROZEN,
             inputdata = bufchain_init,
             stderrdata = bufchain_init,
             defer_close = False,
             deferred_close = False,
             error = None,
             plug = plug'\<rparr>,
       live = True,
       trace = []\<rparr>)"

subsection \<open>Runs\<close>

text \<open>What can happen to a socket from the event loop: a vtable call by its owner, a
  callback from the handle layer, or a queued top-level callback being run. A run stops at
  the first failure.\<close>

datatype event =
    Call sock_call
  | Gotdata string cint "sock_call list"
  | Stderr string cint
  | Sentdata cint "sock_call list"
  | Toplevel_callback "sock_call list"

fun step :: "externs \<Rightarrow> event \<Rightarrow> world \<Rightarrow> failure + world" where
  "step X (Call c) w = sk_call X c w"
| "step X (Gotdata data len react) w = map_sum id snd (handle_gotdata X w data len react)"
| "step X (Stderr data len) w = map_sum id snd (handle_stderr w data len)"
| "step X (Sentdata new_backlog react) w = handle_sentdata X w new_backlog react"
| "step X (Toplevel_callback react) w = handle_socket_unfreeze X w react"

fun run :: "externs \<Rightarrow> event list \<Rightarrow> world \<Rightarrow> failure + world" where
  "run X [] w = Inr w"
| "run X (ev # evs) w =
     (case step X ev w of Inl e \<Rightarrow> Inl e | Inr w' \<Rightarrow> run X evs w')"

subsection \<open>Observations, invariants and the environment\<close>

text \<open>The calls to the plug in a trace, the calls that tear the socket down, the bytes the
  plug has been handed by \<^verbatim>\<open>plug_receive\<close>, and the bytes the handle layer has delivered
  in a list of events.\<close>

fun is_plug_call :: "effect \<Rightarrow> bool" where
  "is_plug_call (PlugClosing p m c b) = True"
| "is_plug_call (PlugReceive p u d) = True"
| "is_plug_call (PlugSent p n) = True"
| "is_plug_call e = False"

fun is_teardown :: "effect \<Rightarrow> bool" where
  "is_teardown (HandleFree h) = True"
| "is_teardown (CloseHandle H) = True"
| "is_teardown (BufchainClear q) = True"
| "is_teardown Sfree = True"
| "is_teardown e = False"

fun plug_receive_bytes :: "effect \<Rightarrow> string" where
  "plug_receive_bytes (PlugReceive p u d) = d"
| "plug_receive_bytes e = []"

definition received :: "effect list \<Rightarrow> string" where
  "received tr = concat (map plug_receive_bytes tr)"

fun delivered_by :: "event \<Rightarrow> string" where
  "delivered_by (Gotdata data len react) = (if len > 0 then take (nat len) data else [])"
| "delivered_by ev = []"

definition delivered :: "event list \<Rightarrow> string" where
  "delivered evs = concat (map delivered_by evs)"

text \<open>The invariant of the input queue: empty whenever the state is \<open>UNFROZEN\<close>, and
  non-empty only in the states \<open>FROZEN\<close> and \<open>THAWING\<close>.\<close>

definition inputdata_invariant :: "world \<Rightarrow> bool" where
  "inputdata_invariant w \<longleftrightarrow>
     (frozen (hs w) = UNFROZEN \<longrightarrow> inputdata (hs w) = []) \<and>
     (inputdata (hs w) \<noteq> [] \<longrightarrow> frozen (hs w) = FROZEN \<or> frozen (hs w) = THAWING)"

text \<open>A list of calls that holds no call to the plug; and one that moreover releases
  nothing.\<close>

definition quiet :: "effect list \<Rightarrow> bool" where
  "quiet es \<longleftrightarrow> list_all (\<lambda>e. \<not> is_plug_call e) es"

definition harmless :: "effect list \<Rightarrow> bool" where
  "harmless es \<longleftrightarrow> list_all (\<lambda>e. \<not> is_plug_call e \<and> \<not> is_teardown e) es"

text \<open>What the environment owes the socket. The byte queue reports a first block of at
  least one byte when it is not empty. The handle layer passes \<^verbatim>\<open>handle_gotdata\<close> a buffer
  that holds at least \<open>len\<close> bytes when \<open>len\<close> is positive.\<close>

definition bufchain_contract :: "externs \<Rightarrow> bool" where
  "bufchain_contract X \<longleftrightarrow> (\<forall>ch. ch \<noteq> [] \<longrightarrow> 0 < bufchain_prefix_len X ch)"

fun wf_event :: "event \<Rightarrow> bool" where
  "wf_event (Gotdata data len react) = (0 < len \<longrightarrow> len \<le> int (length data))"
| "wf_event ev = True"

text \<open>An event during which nobody closes the socket.\<close>

fun close_free :: "event \<Rightarrow> bool" where
  "close_free (Call c) = (c \<noteq> Sk_close)"
| "close_free (Gotdata data len react) = (Sk_close \<notin> set react)"
| "close_free (Stderr data len) = True"
| "close_free (Sentdata new_backlog react) = (Sk_close \<notin> set react)"
| "close_free (Toplevel_callback react) = (Sk_close \<notin> set react)"

text \<open>The socket between two events of the event loop: allocated, no plug callback on the
  stack, no close pending, the queue invariant, and data buffered in the states \<open>FROZEN\<close>
  and \<open>THAWING\<close>.\<close>

definition quiescent :: "world \<Rightarrow> bool" where
  "quiescent w \<longleftrightarrow>
     live w \<and> \<not> defer_close (hs w) \<and> \<not> deferred_close (hs w) \<and> inputdata_invariant w \<and>
     (frozen (hs w) = FROZEN \<or> frozen (hs w) = THAWING \<longrightarrow> inputdata (hs w) \<noteq> [])"

section \<open>Frame and invariant lemmas\<close>

lemmas vtable_defs = sk_handle_plug_def sk_handle_close_def sk_handle_write_def
  sk_handle_write_oob_def sk_handle_write_eof_def sk_handle_flush_def
  sk_handle_set_frozen_def sk_handle_socket_error_def emit_def
  bufchain_size_def bufchain_clear_def NULL_def

lemma sk_call_error: "sk_call X c w = Inr w' \<Longrightarrow> error (hs w') = error (hs w)"
  by (cases c) (auto simp: vtable_defs Let_def split: if_splits frozen_state.splits)

lemma sk_call_plug: "sk_call X c w = Inr w' \<Longrightarrow> plug (hs w) \<noteq> NULL \<Longrightarrow> plug (hs w') \<noteq> NULL"
  by (cases c) (auto simp: vtable_defs Let_def split: if_splits frozen_state.splits)

lemma sk_call_defer_close: "sk_call X c w = Inr w' \<Longrightarrow> defer_close (hs w') = defer_close (hs w)"
  by (cases c) (auto simp: vtable_defs Let_def split: if_splits frozen_state.splits)

lemma sk_call_handles:
  "sk_call X c w = Inr w' \<Longrightarrow>
     send_h (hs w') = send_h (hs w) \<and> recv_h (hs w') = recv_h (hs w) \<and>
     send_H (hs w') = send_H (hs w) \<and> recv_H (hs w') = recv_H (hs w)"
  by (cases c) (auto simp: vtable_defs Let_def split: if_splits frozen_state.splits)

lemma sk_call_trace: "sk_call X c w = Inr w' \<Longrightarrow> \<exists>es. trace w' = trace w @ es \<and> quiet es"
  by (cases c) (auto simp: vtable_defs quiet_def Let_def split: if_splits frozen_state.splits)

lemma sk_call_inputdata_invariant:
  "sk_call X c w = Inr w' \<Longrightarrow> inputdata_invariant w \<Longrightarrow> inputdata_invariant w'"
  by (cases c) (auto simp: vtable_defs inputdata_invariant_def Let_def split: if_splits frozen_state.splits)

lemma sk_call_no_close:
  "sk_call X c w = Inr w' \<Longrightarrow> c \<noteq> Sk_close \<Longrightarrow>
     live w' = live w \<and> inputdata (hs w') = inputdata (hs w) \<and>
     deferred_close (hs w') = deferred_close (hs w)"
  by (cases c) (auto simp: vtable_defs Let_def split: if_splits frozen_state.splits)

lemma sk_call_total:
  "live w \<Longrightarrow> inputdata_invariant w \<Longrightarrow> \<exists>w'. sk_call X c w = Inr w'"
  by (cases c) (auto simp: vtable_defs inputdata_invariant_def Let_def split: if_splits frozen_state.splits)

lemma sk_call_deferring:
  assumes "live w" "defer_close (hs w)" "frozen (hs w) = FROZEN \<or> frozen (hs w) = THAWING"
  shows "\<exists>w' es. sk_call X c w = Inr w' \<and> live w' \<and> defer_close (hs w') \<and>
           (frozen (hs w') = FROZEN \<or> frozen (hs w') = THAWING) \<and>
           inputdata (hs w') = inputdata (hs w) \<and>
           deferred_close (hs w') = (deferred_close (hs w) \<or> c = Sk_close) \<and>
           trace w' = trace w @ es \<and> list_all (\<lambda>e. \<not> is_plug_call e \<and> \<not> is_teardown e) es"
  using assms
  by (cases c) (auto simp: vtable_defs Let_def split: if_splits frozen_state.splits)

lemma sk_calls_error: "sk_calls X cs w = Inr w' \<Longrightarrow> error (hs w') = error (hs w)"
  by (induction cs arbitrary: w) (auto split: sum.splits dest: sk_call_error)

lemma sk_calls_plug:
  "sk_calls X cs w = Inr w' \<Longrightarrow> plug (hs w) \<noteq> NULL \<Longrightarrow> plug (hs w') \<noteq> NULL"
  by (induction cs arbitrary: w) (auto split: sum.splits dest: sk_call_plug)

lemma sk_calls_defer_close:
  "sk_calls X cs w = Inr w' \<Longrightarrow> defer_close (hs w') = defer_close (hs w)"
  by (induction cs arbitrary: w) (auto split: sum.splits dest: sk_call_defer_close)

lemma quiet_append: "quiet (xs @ ys) \<longleftrightarrow> quiet xs \<and> quiet ys"
  by (simp add: quiet_def)

lemma sk_calls_trace: "sk_calls X cs w = Inr w' \<Longrightarrow> \<exists>es. trace w' = trace w @ es \<and> quiet es"
proof (induction cs arbitrary: w)
  case Nil
  then show ?case by (simp add: quiet_def)
next
  case (Cons c cs)
  then obtain w1 where c: "sk_call X c w = Inr w1" and cs: "sk_calls X cs w1 = Inr w'"
    by (auto split: sum.splits)
  from sk_call_trace [OF c] obtain es1 where "trace w1 = trace w @ es1" "quiet es1" by blast
  moreover from Cons.IH [OF cs] obtain es2 where "trace w' = trace w1 @ es2" "quiet es2" by blast
  ultimately have "trace w' = trace w @ (es1 @ es2) \<and> quiet (es1 @ es2)"
    by (simp add: quiet_append)
  then show ?case by blast
qed

lemma sk_calls_inputdata_invariant:
  "sk_calls X cs w = Inr w' \<Longrightarrow> inputdata_invariant w \<Longrightarrow> inputdata_invariant w'"
  by (induction cs arbitrary: w) (auto split: sum.splits dest: sk_call_inputdata_invariant)

lemma sk_calls_no_close:
  "sk_calls X cs w = Inr w' \<Longrightarrow> Sk_close \<notin> set cs \<Longrightarrow>
     live w' = live w \<and> inputdata (hs w') = inputdata (hs w) \<and>
     deferred_close (hs w') = deferred_close (hs w)"
proof (induction cs arbitrary: w)
  case Nil
  then show ?case by simp
next
  case (Cons c cs)
  then obtain w1 where c: "sk_call X c w = Inr w1" and cs: "sk_calls X cs w1 = Inr w'"
    by (auto split: sum.splits)
  from Cons.prems have "c \<noteq> Sk_close" "Sk_close \<notin> set cs" by auto
  with sk_call_no_close [OF c] Cons.IH [OF cs] show ?case by simp
qed

lemma sk_calls_total:
  "live w \<Longrightarrow> inputdata_invariant w \<Longrightarrow> Sk_close \<notin> set cs \<Longrightarrow> \<exists>w'. sk_calls X cs w = Inr w'"
proof (induction cs arbitrary: w)
  case Nil
  then show ?case by simp
next
  case (Cons c cs)
  from sk_call_total [OF Cons.prems(1,2)] obtain w1 where c: "sk_call X c w = Inr w1" by blast
  from Cons.prems have nc: "c \<noteq> Sk_close" "Sk_close \<notin> set cs" by auto
  have "live w1" using sk_call_no_close [OF c nc(1)] Cons.prems(1) by simp
  moreover have "inputdata_invariant w1" using sk_call_inputdata_invariant [OF c Cons.prems(2)] .
  ultimately obtain w' where "sk_calls X cs w1 = Inr w'" using Cons.IH nc(2) by blast
  with c show ?case by simp
qed

lemma sk_calls_deferring:
  assumes "live w" "defer_close (hs w)" "frozen (hs w) = FROZEN \<or> frozen (hs w) = THAWING"
  shows "\<exists>w' es. sk_calls X cs w = Inr w' \<and> live w' \<and> defer_close (hs w') \<and>
           (frozen (hs w') = FROZEN \<or> frozen (hs w') = THAWING) \<and>
           inputdata (hs w') = inputdata (hs w) \<and>
           deferred_close (hs w') = (deferred_close (hs w) \<or> Sk_close \<in> set cs) \<and>
           trace w' = trace w @ es \<and> harmless es"
  using assms
proof (induction cs arbitrary: w)
  case Nil
  then show ?case by (simp add: harmless_def)
next
  case (Cons c cs)
  from sk_call_deferring [OF Cons.prems, of X c] obtain w1 es1 where
    c: "sk_call X c w = Inr w1" and l: "live w1" "defer_close (hs w1)"
      "frozen (hs w1) = FROZEN \<or> frozen (hs w1) = THAWING"
    and k: "inputdata (hs w1) = inputdata (hs w)"
      "deferred_close (hs w1) = (deferred_close (hs w) \<or> c = Sk_close)"
      "trace w1 = trace w @ es1" "list_all (\<lambda>e. \<not> is_plug_call e \<and> \<not> is_teardown e) es1"
    by blast
  from Cons.IH [OF l] obtain w' es2 where
    cs: "sk_calls X cs w1 = Inr w'" and m: "live w'" "defer_close (hs w')"
      "frozen (hs w') = FROZEN \<or> frozen (hs w') = THAWING"
      "inputdata (hs w') = inputdata (hs w1)"
      "deferred_close (hs w') = (deferred_close (hs w1) \<or> Sk_close \<in> set cs)"
      "trace w' = trace w1 @ es2" "harmless es2"
    by blast
  have "trace w' = trace w @ (es1 @ es2)" "harmless (es1 @ es2)"
    using k m by (simp_all add: harmless_def)
  moreover have "deferred_close (hs w') = (deferred_close (hs w) \<or> Sk_close \<in> set (c # cs))"
    using k m by auto
  ultimately show ?case using c cs m k by (intro exI [of _ w'] exI [of _ "es1 @ es2"]) simp
qed

lemmas callback_defs = handle_gotdata_def handle_stderr_def handle_sentdata_def
  handle_socket_unfreeze_def plug_closing_def plug_receive_def plug_sent_def
  log_proxy_stderr_def bufchain_add_def bufchain_prefix_def bufchain_consume_def

lemma emit_simps [simp]:
  "hs (emit e w) = hs w" "live (emit e w) = live w" "trace (emit e w) = trace w @ [e]"
  by (simp_all add: emit_def)

lemma sk_handle_close_error: "sk_handle_close w = Inr w' \<Longrightarrow> error (hs w') = error (hs w)"
  using sk_call_error [of X Sk_close w w'] by simp

lemma sk_handle_close_plug:
  "sk_handle_close w = Inr w' \<Longrightarrow> plug (hs w) \<noteq> NULL \<Longrightarrow> plug (hs w') \<noteq> NULL"
  using sk_call_plug [of X Sk_close w w'] by simp

lemma sk_handle_close_inputdata_invariant:
  "sk_handle_close w = Inr w' \<Longrightarrow> inputdata_invariant w \<Longrightarrow> inputdata_invariant w'"
  using sk_call_inputdata_invariant [of X Sk_close w w'] by simp

lemma handle_socket_unfreeze_not_thawing:
  "live w \<Longrightarrow> frozen (hs w) \<noteq> THAWING \<Longrightarrow> handle_socket_unfreeze X w react = Inr w"
  by (simp add: handle_socket_unfreeze_def)

lemma handle_socket_unfreeze_no_prefix:
  "live w \<Longrightarrow> frozen (hs w) = THAWING \<Longrightarrow>
   take (bufchain_prefix_len X (inputdata (hs w))) (inputdata (hs w)) = [] \<Longrightarrow>
   handle_socket_unfreeze X w react = Inl Assert_prefix_len"
  by (simp add: handle_socket_unfreeze_def bufchain_prefix_def Let_def del: length_take)

lemma handle_socket_unfreeze_thawing:
  assumes "live w" "frozen (hs w) = THAWING"
    and p: "p = take (bufchain_prefix_len X (inputdata (hs w))) (inputdata (hs w))" "p \<noteq> []"
  shows "\<exists>w1 es.
      sk_calls X react (emit (PlugReceive (plug (hs w)) 0 p) (w\<lparr>hs := (hs w)\<lparr>defer_close := True\<rparr>\<rparr>))
        = Inr w1 \<and>
      live w1 \<and> (frozen (hs w1) = FROZEN \<or> frozen (hs w1) = THAWING) \<and>
      inputdata (hs w1) = inputdata (hs w) \<and>
      deferred_close (hs w1) = (deferred_close (hs w) \<or> Sk_close \<in> set react) \<and>
      trace w1 = trace w @ PlugReceive (plug (hs w)) 0 p # es \<and> harmless es \<and>
      handle_socket_unfreeze X w react =
        (let w3 = w1\<lparr>hs := (hs w1)\<lparr>inputdata := drop (length p) (inputdata (hs w)),
                                        defer_close := False\<rparr>\<rparr>
         in if deferred_close (hs w3) then sk_handle_close w3
            else if drop (length p) (inputdata (hs w)) \<noteq> [] then Inr (emit QueueToplevelCallback w3)
            else Inr (emit (HandleUnthrottle (recv_h (hs w3)) 0)
                        (w3\<lparr>hs := (hs w3)\<lparr>frozen := UNFROZEN\<rparr>\<rparr>)))"
proof -
  define wd where "wd = emit (PlugReceive (plug (hs w)) 0 p) (w\<lparr>hs := (hs w)\<lparr>defer_close := True\<rparr>\<rparr>)"
  have "live wd" "defer_close (hs wd)" "frozen (hs wd) = FROZEN \<or> frozen (hs wd) = THAWING"
    using assms(1,2) by (simp_all add: wd_def)
  from sk_calls_deferring [OF this, of X react] obtain w1 es where
    r: "sk_calls X react wd = Inr w1" and
    k: "live w1" "frozen (hs w1) = FROZEN \<or> frozen (hs w1) = THAWING"
       "inputdata (hs w1) = inputdata (hs wd)"
       "deferred_close (hs w1) = (deferred_close (hs wd) \<or> Sk_close \<in> set react)"
       "trace w1 = trace wd @ es" "harmless es"
    by blast
  have bp: "bufchain_prefix X (inputdata (hs w)) = (p, int (length p))"
    unfolding p(1) by (simp add: bufchain_prefix_def Let_def del: length_take)
  have u: "handle_socket_unfreeze X w react =
        (let w3 = w1\<lparr>hs := (hs w1)\<lparr>inputdata := drop (length p) (inputdata (hs w)),
                                        defer_close := False\<rparr>\<rparr>
         in if deferred_close (hs w3) then sk_handle_close w3
            else if drop (length p) (inputdata (hs w)) \<noteq> [] then Inr (emit QueueToplevelCallback w3)
            else Inr (emit (HandleUnthrottle (recv_h (hs w3)) 0)
                        (w3\<lparr>hs := (hs w3)\<lparr>frozen := UNFROZEN\<rparr>\<rparr>)))"
    using assms(1,2) r k(1,3) p(2) unfolding handle_socket_unfreeze_def bp
    by (simp add: bufchain_consume_def bufchain_size_def plug_receive_def wd_def Let_def)
  show ?thesis
    using r k u by (intro exI [of _ w1] exI [of _ es]) (simp add: wd_def)
qed

lemma step_error: "step X ev w = Inr w' \<Longrightarrow> error (hs w') = error (hs w)"
proof (cases ev)
  case (Call c)
  then show "step X ev w = Inr w' \<Longrightarrow> ?thesis" by (simp add: sk_call_error)
next
  case (Gotdata data len react)
  then show "step X ev w = Inr w' \<Longrightarrow> ?thesis"
    by (auto simp: callback_defs split: if_splits sum.splits dest!: sk_calls_error)
next
  case (Stderr data len)
  then show "step X ev w = Inr w' \<Longrightarrow> ?thesis"
    by (auto simp: callback_defs split: if_splits)
next
  case (Sentdata n react)
  then show "step X ev w = Inr w' \<Longrightarrow> ?thesis"
    by (auto simp: callback_defs split: if_splits dest!: sk_calls_error)
next
  case (Toplevel_callback react)
  then show "step X ev w = Inr w' \<Longrightarrow> ?thesis"
    by (auto simp: callback_defs Let_def split: if_splits sum.splits
        dest!: sk_calls_error sk_handle_close_error)
qed

lemma step_plug: "step X ev w = Inr w' \<Longrightarrow> plug (hs w) \<noteq> NULL \<Longrightarrow> plug (hs w') \<noteq> NULL"
proof (cases ev)
  case (Call c)
  then show "step X ev w = Inr w' \<Longrightarrow> plug (hs w) \<noteq> NULL \<Longrightarrow> ?thesis" by (simp add: sk_call_plug)
next
  case (Gotdata data len react)
  then show "step X ev w = Inr w' \<Longrightarrow> plug (hs w) \<noteq> NULL \<Longrightarrow> ?thesis"
    by (auto simp: callback_defs split: if_splits sum.splits dest!: sk_calls_plug)
next
  case (Stderr data len)
  then show "step X ev w = Inr w' \<Longrightarrow> plug (hs w) \<noteq> NULL \<Longrightarrow> ?thesis"
    by (auto simp: callback_defs split: if_splits)
next
  case (Sentdata n react)
  then show "step X ev w = Inr w' \<Longrightarrow> plug (hs w) \<noteq> NULL \<Longrightarrow> ?thesis"
    by (auto simp: callback_defs split: if_splits dest!: sk_calls_plug)
next
  case (Toplevel_callback react)
  then show "step X ev w = Inr w' \<Longrightarrow> plug (hs w) \<noteq> NULL \<Longrightarrow> ?thesis"
    by (auto simp: callback_defs Let_def split: if_splits sum.splits
        dest!: sk_calls_plug sk_handle_close_plug)
qed

lemma handle_gotdata_inputdata_invariant:
  assumes "handle_gotdata X w data len react = Inr (r, w')" "inputdata_invariant w"
  shows "inputdata_invariant w'"
proof (cases "0 < len \<and> frozen (hs w) = FREEZING")
  case True
  with assms show ?thesis
    by (auto simp: handle_gotdata_def inputdata_invariant_def split: if_splits)
next
  case False
  have "inputdata_invariant (emit e w)" for e
    using assms(2) by (simp add: inputdata_invariant_def)
  with False assms(1) show ?thesis
    by (auto simp: handle_gotdata_def plug_closing_def plug_receive_def
        split: if_splits sum.splits dest: sk_calls_inputdata_invariant)
qed

lemma handle_socket_unfreeze_inputdata_invariant:
  assumes "handle_socket_unfreeze X w react = Inr w'" "inputdata_invariant w"
  shows "inputdata_invariant w'"
proof -
  define p where "p = take (bufchain_prefix_len X (inputdata (hs w))) (inputdata (hs w))"
  have l: "live w" using assms(1) by (auto simp: handle_socket_unfreeze_def split: if_splits)
  consider "frozen (hs w) \<noteq> THAWING" | "frozen (hs w) = THAWING" "p = []"
    | "frozen (hs w) = THAWING" "p \<noteq> []" by blast
  then show ?thesis
  proof cases
    case 1
    with assms l show ?thesis by (simp add: handle_socket_unfreeze_not_thawing)
  next
    case 2
    with assms l show ?thesis by (simp add: handle_socket_unfreeze_no_prefix p_def)
  next
    case 3
    from handle_socket_unfreeze_thawing [OF l 3(1) p_def 3(2), of react] obtain w1 es where
      k: "frozen (hs w1) = FROZEN \<or> frozen (hs w1) = THAWING" and
      u: "handle_socket_unfreeze X w react =
        (let w3 = w1\<lparr>hs := (hs w1)\<lparr>inputdata := drop (length p) (inputdata (hs w)),
                                        defer_close := False\<rparr>\<rparr>
         in if deferred_close (hs w3) then sk_handle_close w3
            else if drop (length p) (inputdata (hs w)) \<noteq> [] then Inr (emit QueueToplevelCallback w3)
            else Inr (emit (HandleUnthrottle (recv_h (hs w3)) 0)
                        (w3\<lparr>hs := (hs w3)\<lparr>frozen := UNFROZEN\<rparr>\<rparr>)))"
      by blast
    define w3 where "w3 = w1\<lparr>hs := (hs w1)\<lparr>inputdata := drop (length p) (inputdata (hs w)),
                                        defer_close := False\<rparr>\<rparr>"
    have i3: "inputdata_invariant w3" using k by (auto simp: w3_def inputdata_invariant_def)
    from u assms(1) have f:
      "(if deferred_close (hs w3) then sk_handle_close w3
        else if drop (length p) (inputdata (hs w)) \<noteq> [] then Inr (emit QueueToplevelCallback w3)
        else Inr (emit (HandleUnthrottle (recv_h (hs w3)) 0)
                        (w3\<lparr>hs := (hs w3)\<lparr>frozen := UNFROZEN\<rparr>\<rparr>))) = Inr w'"
      by (simp add: w3_def Let_def)
    show ?thesis
    proof (cases "deferred_close (hs w3)")
      case True
      with f have "sk_handle_close w3 = Inr w'" by simp
      then show ?thesis using i3 by (rule sk_handle_close_inputdata_invariant)
    next
      case False
      with f k show ?thesis
        by (auto simp: inputdata_invariant_def w3_def split: if_splits)
    qed
  qed
qed

lemma step_inputdata_invariant:
  "step X ev w = Inr w' \<Longrightarrow> inputdata_invariant w \<Longrightarrow> inputdata_invariant w'"
proof (cases ev)
  case (Call c)
  then show "step X ev w = Inr w' \<Longrightarrow> inputdata_invariant w \<Longrightarrow> ?thesis"
    by (simp add: sk_call_inputdata_invariant)
next
  case (Gotdata data len react)
  then show "step X ev w = Inr w' \<Longrightarrow> inputdata_invariant w \<Longrightarrow> ?thesis"
    by (cases "handle_gotdata X w data len react")
       (auto dest: handle_gotdata_inputdata_invariant)
next
  case (Stderr data len)
  then show "step X ev w = Inr w' \<Longrightarrow> inputdata_invariant w \<Longrightarrow> ?thesis"
    by (auto simp: callback_defs inputdata_invariant_def split: if_splits)
next
  case (Sentdata n react)
  have "inputdata_invariant w \<Longrightarrow> inputdata_invariant (emit e w)" for e
    by (simp add: inputdata_invariant_def)
  with Sentdata show "step X ev w = Inr w' \<Longrightarrow> inputdata_invariant w \<Longrightarrow> ?thesis"
    by (auto simp: handle_sentdata_def plug_closing_def plug_sent_def split: if_splits
        dest: sk_calls_inputdata_invariant)
next
  case (Toplevel_callback react)
  then show "step X ev w = Inr w' \<Longrightarrow> inputdata_invariant w \<Longrightarrow> ?thesis"
    by (auto dest: handle_socket_unfreeze_inputdata_invariant)
qed

lemma run_error: "run X evs w = Inr w' \<Longrightarrow> error (hs w') = error (hs w)"
  by (induction evs arbitrary: w) (auto split: sum.splits dest: step_error)

lemma run_plug: "run X evs w = Inr w' \<Longrightarrow> plug (hs w) \<noteq> NULL \<Longrightarrow> plug (hs w') \<noteq> NULL"
  by (induction evs arbitrary: w) (auto split: sum.splits dest: step_plug)

lemma run_inputdata_invariant:
  "run X evs w = Inr w' \<Longrightarrow> inputdata_invariant w \<Longrightarrow> inputdata_invariant w'"
  by (induction evs arbitrary: w) (auto split: sum.splits dest: step_inputdata_invariant)

lemma received_append [simp]: "received (xs @ ys) = received xs @ received ys"
  by (simp add: received_def)

lemma received_Nil [simp]: "received [] = []"
  by (simp add: received_def)

lemma received_Cons [simp]: "received (e # es) = plug_receive_bytes e @ received es"
  by (simp add: received_def)

lemma quiet_received: "quiet es \<Longrightarrow> received es = []"
  by (induction es) (auto simp: quiet_def elim: is_plug_call.elims)

lemma harmless_quiet: "harmless es \<Longrightarrow> quiet es"
  by (induction es) (auto simp: harmless_def quiet_def)

lemma quiescent_emit [simp]: "quiescent (emit e w) = quiescent w"
  by (simp add: quiescent_def inputdata_invariant_def)

lemma take_drop_prefix: "take n q @ drop (length (take n q)) q = q"
  by (simp add: min_def)

lemma sk_call_quiescent:
  assumes "quiescent w" "c \<noteq> Sk_close"
  shows "\<exists>w' es. sk_call X c w = Inr w' \<and> quiescent w' \<and>
           inputdata (hs w') = inputdata (hs w) \<and> trace w' = trace w @ es \<and> quiet es"
  using assms
  by (cases c)
     (auto simp: vtable_defs quiescent_def inputdata_invariant_def quiet_def Let_def
       split: frozen_state.splits)

lemma sk_calls_quiescent:
  assumes "quiescent w" "Sk_close \<notin> set cs"
  shows "\<exists>w' es. sk_calls X cs w = Inr w' \<and> quiescent w' \<and>
           inputdata (hs w') = inputdata (hs w) \<and> trace w' = trace w @ es \<and> quiet es"
  using assms
proof (induction cs arbitrary: w)
  case Nil
  then show ?case by (simp add: quiet_def)
next
  case (Cons c cs)
  then have nc: "c \<noteq> Sk_close" "Sk_close \<notin> set cs" by auto
  from sk_call_quiescent [OF Cons.prems(1) nc(1), of X] obtain w1 es1 where
    c: "sk_call X c w = Inr w1" "quiescent w1" "inputdata (hs w1) = inputdata (hs w)"
       "trace w1 = trace w @ es1" "quiet es1"
    by blast
  from Cons.IH [OF c(2) nc(2)] obtain w' es2 where
    cs: "sk_calls X cs w1 = Inr w'" "quiescent w'" "inputdata (hs w') = inputdata (hs w1)"
        "trace w' = trace w1 @ es2" "quiet es2"
    by blast
  have "trace w' = trace w @ (es1 @ es2)" "quiet (es1 @ es2)"
    using c cs by (simp_all add: quiet_append)
  with c cs show ?case by (intro exI [of _ w'] exI [of _ "es1 @ es2"]) simp
qed

lemma plug_callback_quiescent:
  assumes "quiescent w" "Sk_close \<notin> set react" "is_plug_call e"
  shows "\<exists>w'. sk_calls X react (emit e w) = Inr w' \<and> quiescent w' \<and>
           inputdata (hs w') = inputdata (hs w) \<and>
           received (trace w') = received (trace w) @ plug_receive_bytes e"
proof -
  have "quiescent (emit e w)" using assms(1) by simp
  from sk_calls_quiescent [OF this assms(2), of X] obtain w' es where
    "sk_calls X react (emit e w) = Inr w'" "quiescent w'"
    "inputdata (hs w') = inputdata (hs (emit e w))" "trace w' = trace (emit e w) @ es" "quiet es"
    by blast
  then show ?thesis by (intro exI [of _ w']) (simp add: quiet_received)
qed

lemma handle_gotdata_conserves:
  assumes "quiescent w" "0 < len \<longrightarrow> len \<le> int (length data)" "Sk_close \<notin> set react"
  shows "handle_gotdata X w data len react = Inl Assert_not_throttled \<or>
         (\<exists>r w'. handle_gotdata X w data len react = Inr (r, w') \<and> quiescent w' \<and>
            received (trace w') @ inputdata (hs w') =
              received (trace w) @ inputdata (hs w) @ (if len > 0 then take (nat len) data else []))"
proof -
  have l: "live w" using assms(1) by (simp add: quiescent_def)
  consider "len < 0" | "len = 0" | "0 < len" "frozen (hs w) = FROZEN \<or> frozen (hs w) = THAWING"
    | "0 < len" "frozen (hs w) = FREEZING" | "0 < len" "frozen (hs w) = UNFROZEN"
    using less_linear [of len 0] by (cases "frozen (hs w)") blast+
  then show ?thesis
  proof cases
    case 1
    from plug_callback_quiescent [OF assms(1,3), of "PlugClosing (plug (hs w)) (Some ''Read error from handle'') 0 0" X]
    show ?thesis using 1 l by (auto simp: handle_gotdata_def plug_closing_def)
  next
    case 2
    from plug_callback_quiescent [OF assms(1,3), of "PlugClosing (plug (hs w)) None 0 0" X]
    show ?thesis using 2 l by (auto simp: handle_gotdata_def plug_closing_def)
  next
    case 3
    then show ?thesis using l by (auto simp: handle_gotdata_def)
  next
    case 4
    then have "data \<noteq> []" using assms(2) by auto
    then show ?thesis using 4 l assms(1,2)
      by (auto simp: handle_gotdata_def bufchain_add_def quiescent_def inputdata_invariant_def)
  next
    case 5
    then have q: "inputdata (hs w) = []" using assms(1) by (simp add: quiescent_def inputdata_invariant_def)
    from plug_callback_quiescent [OF assms(1,3), of "PlugReceive (plug (hs w)) 0 (take (nat len) data)" X]
    show ?thesis using 5 l q by (auto simp: handle_gotdata_def plug_receive_def)
  qed
qed

lemma handle_socket_unfreeze_conserves:
  assumes "quiescent w" "bufchain_contract X" "Sk_close \<notin> set react"
  shows "\<exists>w'. handle_socket_unfreeze X w react = Inr w' \<and> quiescent w' \<and>
           received (trace w') @ inputdata (hs w') = received (trace w) @ inputdata (hs w) \<and>
           (frozen (hs w) = THAWING \<longrightarrow> length (inputdata (hs w')) < length (inputdata (hs w))) \<and>
           (frozen (hs w) = UNFROZEN \<longrightarrow> frozen (hs w') = UNFROZEN) \<and>
           (react = [] \<longrightarrow> frozen (hs w) = THAWING \<longrightarrow>
              frozen (hs w') = (if inputdata (hs w') = [] then UNFROZEN else THAWING))"
proof (cases "frozen (hs w) = THAWING")
  case False
  with assms(1) show ?thesis
    by (simp add: handle_socket_unfreeze_not_thawing quiescent_def)
next
  case True
  define p where "p = take (bufchain_prefix_len X (inputdata (hs w))) (inputdata (hs w))"
  have l: "live w" and q: "inputdata (hs w) \<noteq> []" and d: "\<not> deferred_close (hs w)"
    using assms(1) True by (simp_all add: quiescent_def)
  have p: "p \<noteq> []" using q assms(2) by (simp add: p_def bufchain_contract_def)
  from handle_socket_unfreeze_thawing [OF l True p_def p, of react] obtain w1 es where
    k: "sk_calls X react (emit (PlugReceive (plug (hs w)) 0 p) (w\<lparr>hs := (hs w)\<lparr>defer_close := True\<rparr>\<rparr>))
        = Inr w1"
       "live w1" "frozen (hs w1) = FROZEN \<or> frozen (hs w1) = THAWING"
       "inputdata (hs w1) = inputdata (hs w)"
       "deferred_close (hs w1) = (deferred_close (hs w) \<or> Sk_close \<in> set react)"
       "trace w1 = trace w @ PlugReceive (plug (hs w)) 0 p # es" "harmless es" and
    u: "handle_socket_unfreeze X w react =
        (let w3 = w1\<lparr>hs := (hs w1)\<lparr>inputdata := drop (length p) (inputdata (hs w)),
                                        defer_close := False\<rparr>\<rparr>
         in if deferred_close (hs w3) then sk_handle_close w3
            else if drop (length p) (inputdata (hs w)) \<noteq> [] then Inr (emit QueueToplevelCallback w3)
            else Inr (emit (HandleUnthrottle (recv_h (hs w3)) 0)
                        (w3\<lparr>hs := (hs w3)\<lparr>frozen := UNFROZEN\<rparr>\<rparr>)))"
    by blast
  have nd: "\<not> deferred_close (hs w1)" using k(5) d assms(3) by simp
  have r: "received (trace w1) = received (trace w) @ p"
    using k(6,7) by (simp add: quiet_received harmless_quiet)
  have pq: "p @ drop (length p) (inputdata (hs w)) = inputdata (hs w)"
    unfolding p_def by (rule take_drop_prefix)
  have shorter: "length (drop (length p) (inputdata (hs w))) < length (inputdata (hs w))"
    using p q by (cases p) auto
  have fr: "react = [] \<Longrightarrow> frozen (hs w1) = THAWING"
    using k(1) True by auto
  show ?thesis
  proof (cases "drop (length p) (inputdata (hs w)) \<noteq> []")
    case True
    with u nd have "handle_socket_unfreeze X w react =
        Inr (emit QueueToplevelCallback (w1\<lparr>hs := (hs w1)\<lparr>inputdata := drop (length p) (inputdata (hs w)),
                                        defer_close := False\<rparr>\<rparr>))"
      by (simp add: Let_def)
    then show ?thesis
      using k(2,3) nd r pq shorter True fr \<open>frozen (hs w) = THAWING\<close>
      by (auto simp: quiescent_def inputdata_invariant_def)
  next
    case False
    with u nd have "handle_socket_unfreeze X w react =
        Inr (emit (HandleUnthrottle (recv_h (hs w1)) 0)
          (w1\<lparr>hs := (hs w1)\<lparr>inputdata := drop (length p) (inputdata (hs w)),
                             defer_close := False, frozen := UNFROZEN\<rparr>\<rparr>))"
      by (simp add: Let_def)
    then show ?thesis
      using k(2,3) nd r pq shorter False \<open>frozen (hs w) = THAWING\<close>
      by (auto simp: quiescent_def inputdata_invariant_def)
  qed
qed

lemma step_conserves:
  assumes "quiescent w" "bufchain_contract X" "wf_event ev" "close_free ev"
  shows "step X ev w = Inl Assert_not_throttled \<or>
         (\<exists>w'. step X ev w = Inr w' \<and> quiescent w' \<and>
            received (trace w') @ inputdata (hs w') =
              received (trace w) @ inputdata (hs w) @ delivered_by ev)"
proof (cases ev)
  case (Call c)
  with assms(4) have "c \<noteq> Sk_close" by simp
  from sk_call_quiescent [OF assms(1) this, of X] Call show ?thesis
    by (auto simp: quiet_received)
next
  case (Gotdata data len react)
  with assms(3,4) have "0 < len \<longrightarrow> len \<le> int (length data)" "Sk_close \<notin> set react" by simp_all
  from handle_gotdata_conserves [OF assms(1) this, of X] Gotdata show ?thesis
    by auto
next
  case (Stderr data len)
  with assms(1) show ?thesis
    by (auto simp: handle_stderr_def log_proxy_stderr_def quiescent_def inputdata_invariant_def)
next
  case (Sentdata n react)
  with assms(4) have nc: "Sk_close \<notin> set react" by simp
  have l: "live w" using assms(1) by (simp add: quiescent_def)
  from plug_callback_quiescent [OF assms(1) nc, of "PlugClosing (plug (hs w)) (Some (win_strerror X (neg_cint n))) (neg_cint n) 0" X]
    plug_callback_quiescent [OF assms(1) nc, of "PlugSent (plug (hs w)) n" X]
  show ?thesis using Sentdata l
    by (auto simp: handle_sentdata_def plug_closing_def plug_sent_def)
next
  case (Toplevel_callback react)
  with assms(4) have nc: "Sk_close \<notin> set react" by simp
  from handle_socket_unfreeze_conserves [OF assms(1,2) nc] Toplevel_callback show ?thesis
    by auto
qed

lemma delivered_Cons: "delivered (ev # evs) = delivered_by ev @ delivered evs"
  by (simp add: delivered_def)

lemma run_conserves:
  assumes "quiescent w" "bufchain_contract X" "\<forall>ev\<in>set evs. wf_event ev \<and> close_free ev"
  shows "run X evs w = Inl Assert_not_throttled \<or>
         (\<exists>w'. run X evs w = Inr w' \<and> quiescent w' \<and>
            received (trace w') @ inputdata (hs w') =
              received (trace w) @ inputdata (hs w) @ delivered evs)"
  using assms
proof (induction evs arbitrary: w)
  case Nil
  then show ?case by (simp add: delivered_def)
next
  case (Cons ev evs)
  then have ev: "wf_event ev" "close_free ev" and evs: "\<forall>ev\<in>set evs. wf_event ev \<and> close_free ev"
    by auto
  from step_conserves [OF Cons.prems(1,2) ev]
  show ?case
  proof
    assume "step X ev w = Inl Assert_not_throttled"
    then show ?thesis by simp
  next
    assume "\<exists>w'. step X ev w = Inr w' \<and> quiescent w' \<and>
            received (trace w') @ inputdata (hs w') =
              received (trace w) @ inputdata (hs w) @ delivered_by ev"
    then obtain w1 where s: "step X ev w = Inr w1" "quiescent w1"
      "received (trace w1) @ inputdata (hs w1) =
              received (trace w) @ inputdata (hs w) @ delivered_by ev"
      by blast
    from Cons.IH [OF s(2) Cons.prems(2) evs] s show ?thesis
      by (auto simp: delivered_Cons)
  qed
qed

lemma drain_completes:
  assumes "quiescent w" "bufchain_contract X"
    "frozen (hs w) = THAWING \<or> frozen (hs w) = UNFROZEN" "length (inputdata (hs w)) \<le> n"
  shows "\<exists>w'. run X (replicate n (Toplevel_callback [])) w = Inr w' \<and> quiescent w' \<and>
           frozen (hs w') = UNFROZEN \<and>
           received (trace w') = received (trace w) @ inputdata (hs w)"
  using assms
proof (induction n arbitrary: w)
  case 0
  then show ?case by (auto simp: quiescent_def)
next
  case (Suc n)
  from handle_socket_unfreeze_conserves [OF Suc.prems(1,2), of "[]"] obtain w1 where
    s: "handle_socket_unfreeze X w [] = Inr w1" "quiescent w1"
       "received (trace w1) @ inputdata (hs w1) = received (trace w) @ inputdata (hs w)"
       "frozen (hs w) = THAWING \<longrightarrow> length (inputdata (hs w1)) < length (inputdata (hs w))"
       "frozen (hs w) = UNFROZEN \<longrightarrow> frozen (hs w1) = UNFROZEN"
       "frozen (hs w) = THAWING \<longrightarrow>
              frozen (hs w1) = (if inputdata (hs w1) = [] then UNFROZEN else THAWING)"
    by auto
  have f: "frozen (hs w1) = THAWING \<or> frozen (hs w1) = UNFROZEN"
    using Suc.prems(3) s(5,6) by auto
  have "length (inputdata (hs w1)) \<le> n"
  proof (cases "frozen (hs w) = THAWING")
    case True
    with s(4) Suc.prems(4) show ?thesis by simp
  next
    case False
    with Suc.prems(3) s(5) s(2) show ?thesis by (simp add: quiescent_def inputdata_invariant_def)
  qed
  from Suc.IH [OF s(2) Suc.prems(2) f this] obtain w' where
    "run X (replicate n (Toplevel_callback [])) w1 = Inr w'" "quiescent w'"
    "frozen (hs w') = UNFROZEN" "received (trace w') = received (trace w1) @ inputdata (hs w1)"
    by blast
  with s show ?case by simp
qed

lemma unfreeze_quiescent:
  assumes "quiescent w"
  shows "\<exists>w'. sk_handle_set_frozen w 0 = Inr w' \<and> quiescent w' \<and>
           (frozen (hs w') = THAWING \<or> frozen (hs w') = UNFROZEN) \<and>
           inputdata (hs w') = inputdata (hs w) \<and> received (trace w') = received (trace w)"
  using assms
  by (cases "frozen (hs w)")
     (auto simp: sk_handle_set_frozen_def quiescent_def inputdata_invariant_def bufchain_size_def)

lemma sk_calls_handles:
  "sk_calls X cs w = Inr w' \<Longrightarrow>
     send_h (hs w') = send_h (hs w) \<and> recv_h (hs w') = recv_h (hs w) \<and>
     send_H (hs w') = send_H (hs w) \<and> recv_H (hs w') = recv_H (hs w)"
proof (induction cs arbitrary: w)
  case Nil
  then show ?case by simp
next
  case (Cons c cs)
  then obtain w1 where c: "sk_call X c w = Inr w1" and cs: "sk_calls X cs w1 = Inr w'"
    by (auto split: sum.splits)
  from sk_call_handles [OF c] Cons.IH [OF cs] show ?case by simp
qed

lemma quiet_filter: "quiet es \<Longrightarrow> filter is_plug_call es = []"
  by (induction es) (auto simp: quiet_def)

lemmas eval_defs = make_handle_socket_def vtable_defs callback_defs bufchain_init_def
  INT_MAX_def INT_MIN_def neg_cint_def Let_def

section \<open>Properties of the socket\<close>

text \<open>
  C1. From a new socket, take any sequence of events in which nobody closes the socket:
  freeze and unfreeze requests (from the owner or from inside a plug callback), deliveries
  of the handle layer, runs of the queued top-level callback. Either the handle layer
  breaks its contract by delivering data while the socket is \<open>FROZEN\<close> or \<open>THAWING\<close> (the
  assertion of \<^verbatim>\<open>handle_gotdata\<close>), or the run ends in a live socket where the bytes handed
  to \<^verbatim>\<open>plug_receive\<close> so far, followed by the bytes still in the input queue, are exactly
  the bytes delivered, in order: nothing lost, doubled or reordered. In state \<open>UNFROZEN\<close>
  the plug has received all of them; and from any such state an unfreeze request followed
  by enough runs of \<^verbatim>\<open>handle_socket_unfreeze\<close> hands the plug all of them.
\<close>

theorem bytes_reach_plug_in_order:
  assumes "bufchain_contract X" and "list_all (\<lambda>ev. wf_event ev \<and> close_free ev) evs"
  shows "run X evs (make_handle_socket sH rH eH p ov) = Inl Assert_not_throttled \<or>
    (\<exists>w. run X evs (make_handle_socket sH rH eH p ov) = Inr w \<and> live w \<and>
       received (trace w) @ inputdata (hs w) = delivered evs \<and>
       (frozen (hs w) = UNFROZEN \<longrightarrow> received (trace w) = delivered evs) \<and>
       (\<forall>n\<ge>length (inputdata (hs w)).
          \<exists>w'. run X (Call (Sk_set_frozen 0) # replicate n (Toplevel_callback [])) w = Inr w' \<and>
               frozen (hs w') = UNFROZEN \<and> inputdata (hs w') = [] \<and>
               received (trace w') = delivered evs))"
proof -
  define w0 where "w0 = make_handle_socket sH rH eH p ov"
  have q0: "quiescent w0" and t0: "trace w0 = []" "inputdata (hs w0) = []"
    by (simp_all add: w0_def make_handle_socket_def quiescent_def inputdata_invariant_def
        bufchain_init_def Let_def)
  from assms(2) have evs: "\<forall>ev\<in>set evs. wf_event ev \<and> close_free ev"
    by (simp add: list_all_iff)
  from run_conserves [OF q0 assms(1) evs] show ?thesis
  proof
    assume "run X evs w0 = Inl Assert_not_throttled"
    then show ?thesis by (simp add: w0_def)
  next
    assume "\<exists>w'. run X evs w0 = Inr w' \<and> quiescent w' \<and>
      received (trace w') @ inputdata (hs w') = received (trace w0) @ inputdata (hs w0) @ delivered evs"
    then obtain w where w: "run X evs w0 = Inr w" "quiescent w"
      "received (trace w) @ inputdata (hs w) = delivered evs"
      using t0 by auto
    have u: "frozen (hs w) = UNFROZEN \<longrightarrow> received (trace w) = delivered evs"
      using w(2,3) by (auto simp: quiescent_def inputdata_invariant_def)
    have d: "\<exists>w'. run X (Call (Sk_set_frozen 0) # replicate n (Toplevel_callback [])) w = Inr w' \<and>
               frozen (hs w') = UNFROZEN \<and> inputdata (hs w') = [] \<and>
               received (trace w') = delivered evs"
      if n: "length (inputdata (hs w)) \<le> n" for n
    proof -
      from unfreeze_quiescent [OF w(2)] obtain w1 where
        a: "sk_handle_set_frozen w 0 = Inr w1" "quiescent w1"
           "frozen (hs w1) = THAWING \<or> frozen (hs w1) = UNFROZEN"
           "inputdata (hs w1) = inputdata (hs w)" "received (trace w1) = received (trace w)"
        by blast
      from drain_completes [OF a(2) assms(1) a(3), of n] n a(4) obtain w' where
        b: "run X (replicate n (Toplevel_callback [])) w1 = Inr w'" "quiescent w'"
           "frozen (hs w') = UNFROZEN" "received (trace w') = received (trace w1) @ inputdata (hs w1)"
        by auto
      have "inputdata (hs w') = []" using b(2,3) by (simp add: quiescent_def inputdata_invariant_def)
      with a b w(3) show ?thesis by simp
    qed
    have "live w" using w(2) by (simp add: quiescent_def)
    with w u d show ?thesis unfolding w0_def by blast
  qed
qed

theorem bytes_reach_plug_in_order_witness:
  "bufchain_contract \<lparr>bufchain_prefix_len = (\<lambda>ch. 1), win_strerror = (\<lambda>e. ''failed''),
                      handle_write = (\<lambda>h data len. len)\<rparr> \<and>
   list_all (\<lambda>ev. wf_event ev \<and> close_free ev)
     [Gotdata ''AB'' 2 [], Call (Sk_set_frozen 1), Gotdata ''CD'' 2 [],
      Call (Sk_set_frozen 0), Toplevel_callback [], Toplevel_callback []] \<and>
   (\<exists>w. run \<lparr>bufchain_prefix_len = (\<lambda>ch. 1), win_strerror = (\<lambda>e. ''failed''),
              handle_write = (\<lambda>h data len. len)\<rparr>
           [Gotdata ''AB'' 2 [], Call (Sk_set_frozen 1), Gotdata ''CD'' 2 [],
            Call (Sk_set_frozen 0), Toplevel_callback [], Toplevel_callback []]
           (make_handle_socket 1 2 0 7 0) = Inr w \<and>
        frozen (hs w) = UNFROZEN \<and> received (trace w) = ''ABCD'')"
proof -
  let ?X = "\<lparr>bufchain_prefix_len = (\<lambda>ch. 1), win_strerror = (\<lambda>e. ''failed''),
             handle_write = (\<lambda>h data len. len)\<rparr>"
  let ?evs = "[Gotdata ''AB'' 2 [], Call (Sk_set_frozen 1), Gotdata ''CD'' 2 [],
              Call (Sk_set_frozen 0), Toplevel_callback [], Toplevel_callback []]"
  have c: "bufchain_contract ?X" by (simp add: bufchain_contract_def)
  have e: "list_all (\<lambda>ev. wf_event ev \<and> close_free ev) ?evs" by simp
  have f: "\<exists>w. run ?X ?evs (make_handle_socket 1 2 0 7 0) = Inr w \<and> frozen (hs w) = UNFROZEN"
    by (simp add: eval_defs)
  have g: "delivered ?evs = ''ABCD''" by (simp add: delivered_def)
  from bytes_reach_plug_in_order [OF c e, of 1 2 0 7 0] f g c e show ?thesis
    by auto
qed

text \<open>
  C2. The transition table of \<^verbatim>\<open>sk_handle_set_frozen\<close> on an allocated socket. A freeze
  request in state \<open>FREEZING\<close> or \<open>FROZEN\<close> changes nothing; in state \<open>THAWING\<close> it only sets
  the state to \<open>FROZEN\<close> (the input queue and the trace are as before), and a run of
  \<^verbatim>\<open>handle_socket_unfreeze\<close> in that state returns at once, changing nothing; in state
  \<open>UNFROZEN\<close> it sets the state to \<open>FREEZING\<close>. An unfreeze request in state \<open>UNFROZEN\<close> or
  \<open>THAWING\<close> changes nothing; in state \<open>FREEZING\<close> it sets the state to \<open>UNFROZEN\<close> when the
  input queue is empty and fails the assertion otherwise (under the queue invariant it
  never fails); in state \<open>FROZEN\<close> it sets the state to \<open>THAWING\<close> and queues exactly one
  top-level callback.
\<close>

theorem set_frozen_transitions:
  assumes "live w"
  shows
   "(is_frozen \<noteq> 0 \<and> (frozen (hs w) = FREEZING \<or> frozen (hs w) = FROZEN) \<longrightarrow>
       sk_handle_set_frozen w is_frozen = Inr w) \<and>
    (is_frozen \<noteq> 0 \<and> frozen (hs w) = THAWING \<longrightarrow>
       sk_handle_set_frozen w is_frozen = Inr (w\<lparr>hs := (hs w)\<lparr>frozen := FROZEN\<rparr>\<rparr>) \<and>
       handle_socket_unfreeze X (w\<lparr>hs := (hs w)\<lparr>frozen := FROZEN\<rparr>\<rparr>) react
         = Inr (w\<lparr>hs := (hs w)\<lparr>frozen := FROZEN\<rparr>\<rparr>)) \<and>
    (is_frozen \<noteq> 0 \<and> frozen (hs w) = UNFROZEN \<longrightarrow>
       sk_handle_set_frozen w is_frozen = Inr (w\<lparr>hs := (hs w)\<lparr>frozen := FREEZING\<rparr>\<rparr>)) \<and>
    (is_frozen = 0 \<and> (frozen (hs w) = UNFROZEN \<or> frozen (hs w) = THAWING) \<longrightarrow>
       sk_handle_set_frozen w is_frozen = Inr w) \<and>
    (is_frozen = 0 \<and> frozen (hs w) = FREEZING \<longrightarrow>
       sk_handle_set_frozen w is_frozen =
         (if inputdata (hs w) = [] then Inr (w\<lparr>hs := (hs w)\<lparr>frozen := UNFROZEN\<rparr>\<rparr>)
          else Inl Assert_inputdata_empty)) \<and>
    (is_frozen = 0 \<and> frozen (hs w) = FREEZING \<and> inputdata_invariant w \<longrightarrow>
       sk_handle_set_frozen w is_frozen = Inr (w\<lparr>hs := (hs w)\<lparr>frozen := UNFROZEN\<rparr>\<rparr>)) \<and>
    (is_frozen = 0 \<and> frozen (hs w) = FROZEN \<longrightarrow>
       sk_handle_set_frozen w is_frozen =
         Inr (w\<lparr>hs := (hs w)\<lparr>frozen := THAWING\<rparr>, trace := trace w @ [QueueToplevelCallback]\<rparr>))"
  using assms
  by (cases "frozen (hs w)")
     (simp_all add: sk_handle_set_frozen_def handle_socket_unfreeze_def emit_def bufchain_size_def
       inputdata_invariant_def)

theorem set_frozen_transitions_witness:
  "sk_handle_set_frozen (make_handle_socket 1 2 0 7 0) 0 = Inr (make_handle_socket 1 2 0 7 0) \<and>
   sk_handle_set_frozen (make_handle_socket 1 2 0 7 0) 1
     = Inr ((make_handle_socket 1 2 0 7 0)
              \<lparr>hs := (hs (make_handle_socket 1 2 0 7 0))\<lparr>frozen := FREEZING\<rparr>\<rparr>) \<and>
   sk_handle_set_frozen
     ((make_handle_socket 1 2 0 7 0)
        \<lparr>hs := (hs (make_handle_socket 1 2 0 7 0))\<lparr>frozen := FREEZING\<rparr>\<rparr>) 1
     = Inr ((make_handle_socket 1 2 0 7 0)
              \<lparr>hs := (hs (make_handle_socket 1 2 0 7 0))\<lparr>frozen := FREEZING\<rparr>\<rparr>) \<and>
   sk_handle_set_frozen
     ((make_handle_socket 1 2 0 7 0)
        \<lparr>hs := (hs (make_handle_socket 1 2 0 7 0))\<lparr>frozen := FREEZING\<rparr>\<rparr>) 0
     = Inr (make_handle_socket 1 2 0 7 0) \<and>
   sk_handle_set_frozen
     ((make_handle_socket 1 2 0 7 0)
        \<lparr>hs := (hs (make_handle_socket 1 2 0 7 0))\<lparr>frozen := FROZEN, inputdata := ''CD''\<rparr>\<rparr>) 0
     = Inr ((make_handle_socket 1 2 0 7 0)
        \<lparr>hs := (hs (make_handle_socket 1 2 0 7 0))\<lparr>frozen := THAWING, inputdata := ''CD''\<rparr>,
          trace := [QueueToplevelCallback]\<rparr>) \<and>
   sk_handle_set_frozen
     ((make_handle_socket 1 2 0 7 0)
        \<lparr>hs := (hs (make_handle_socket 1 2 0 7 0))\<lparr>frozen := THAWING, inputdata := ''CD''\<rparr>,
          trace := [QueueToplevelCallback]\<rparr>) 1
     = Inr ((make_handle_socket 1 2 0 7 0)
        \<lparr>hs := (hs (make_handle_socket 1 2 0 7 0))\<lparr>frozen := FROZEN, inputdata := ''CD''\<rparr>,
          trace := [QueueToplevelCallback]\<rparr>) \<and>
   handle_socket_unfreeze
     \<lparr>bufchain_prefix_len = length, win_strerror = (\<lambda>e. ''failed''),
      handle_write = (\<lambda>h data len. len)\<rparr>
     ((make_handle_socket 1 2 0 7 0)
        \<lparr>hs := (hs (make_handle_socket 1 2 0 7 0))\<lparr>frozen := FROZEN, inputdata := ''CD''\<rparr>,
          trace := [QueueToplevelCallback]\<rparr>) []
     = Inr ((make_handle_socket 1 2 0 7 0)
        \<lparr>hs := (hs (make_handle_socket 1 2 0 7 0))\<lparr>frozen := FROZEN, inputdata := ''CD''\<rparr>,
          trace := [QueueToplevelCallback]\<rparr>)"
proof -
  let ?X = "\<lparr>bufchain_prefix_len = length, win_strerror = (\<lambda>e. ''failed''),
             handle_write = (\<lambda>h data len. len)\<rparr>"
  let ?w = "make_handle_socket 1 2 0 7 0"
  let ?g = "?w\<lparr>hs := (hs ?w)\<lparr>frozen := FREEZING\<rparr>\<rparr>"
  let ?f = "?w\<lparr>hs := (hs ?w)\<lparr>frozen := FROZEN, inputdata := ''CD''\<rparr>\<rparr>"
  let ?t = "?w\<lparr>hs := (hs ?w)\<lparr>frozen := THAWING, inputdata := ''CD''\<rparr>,
               trace := [QueueToplevelCallback]\<rparr>"
  have l: "live ?w" "live ?g" "live ?f" "live ?t" by (simp_all add: make_handle_socket_def)
  have s: "frozen (hs ?w) = UNFROZEN" "frozen (hs ?g) = FREEZING" "inputdata (hs ?g) = []"
    "frozen (hs ?f) = FROZEN" "trace ?f = []" "frozen (hs ?t) = THAWING"
    "?g\<lparr>hs := (hs ?g)\<lparr>frozen := UNFROZEN\<rparr>\<rparr> = ?w"
    by (simp_all add: make_handle_socket_def bufchain_init_def)
  from set_frozen_transitions [OF l(1), of 1] set_frozen_transitions [OF l(2), of 0]
    set_frozen_transitions [OF l(3), of 0] set_frozen_transitions [OF l(4), of 1 ?X "[]"]
    set_frozen_transitions [OF l(1), of 0] set_frozen_transitions [OF l(2), of 1] s
  show ?thesis by (simp add: make_handle_socket_def bufchain_init_def)
qed

text \<open>
  C3. \<^verbatim>\<open>handle_gotdata\<close> with a positive length on an allocated socket. In state
  \<open>FREEZING\<close> it appends the \<open>len\<close> bytes to the input queue, sets the state to \<open>FROZEN\<close>,
  calls nobody (the trace is as before) and returns \<^verbatim>\<open>INT_MAX\<close>. In state \<open>UNFROZEN\<close> it hands
  the bytes to \<^verbatim>\<open>plug_receive\<close> and returns 0; when the plug does not call back, nothing
  else changes; whatever the plug does during the callback, that is the only call to the
  plug, and the input queue is as before unless the plug closes the socket.
\<close>

theorem handle_gotdata_with_data:
  assumes "live w" "0 < len"
  shows
   "(frozen (hs w) = FREEZING \<longrightarrow>
       handle_gotdata X w data len react =
         Inr (INT_MAX, w\<lparr>hs := (hs w)\<lparr>inputdata := inputdata (hs w) @ take (nat len) data,
                                         frozen := FROZEN\<rparr>\<rparr>)) \<and>
    (frozen (hs w) = UNFROZEN \<longrightarrow>
       handle_gotdata X w data len [] =
         Inr (0, w\<lparr>trace := trace w @ [PlugReceive (plug (hs w)) 0 (take (nat len) data)]\<rparr>)) \<and>
    (frozen (hs w) = UNFROZEN \<and> handle_gotdata X w data len react = Inr (r, w') \<longrightarrow>
       r = 0 \<and>
       (\<exists>es. trace w' = trace w @ PlugReceive (plug (hs w)) 0 (take (nat len) data) # es \<and> quiet es) \<and>
       (Sk_close \<notin> set react \<longrightarrow> inputdata (hs w') = inputdata (hs w)))"
proof -
  have a: "frozen (hs w) = FREEZING \<longrightarrow>
       handle_gotdata X w data len react =
         Inr (INT_MAX, w\<lparr>hs := (hs w)\<lparr>inputdata := inputdata (hs w) @ take (nat len) data,
                                         frozen := FROZEN\<rparr>\<rparr>)"
    using assms by (simp add: handle_gotdata_def bufchain_add_def)
  have b: "frozen (hs w) = UNFROZEN \<longrightarrow>
       handle_gotdata X w data len [] =
         Inr (0, w\<lparr>trace := trace w @ [PlugReceive (plug (hs w)) 0 (take (nat len) data)]\<rparr>)"
    using assms by (simp add: handle_gotdata_def plug_receive_def emit_def)
  have c: "r = 0 \<and>
       (\<exists>es. trace w' = trace w @ PlugReceive (plug (hs w)) 0 (take (nat len) data) # es \<and> quiet es) \<and>
       (Sk_close \<notin> set react \<longrightarrow> inputdata (hs w') = inputdata (hs w))"
    if u: "frozen (hs w) = UNFROZEN" and g: "handle_gotdata X w data len react = Inr (r, w')"
  proof -
    from g u assms have r: "r = 0" and
      s: "sk_calls X react (emit (PlugReceive (plug (hs w)) 0 (take (nat len) data)) w) = Inr w'"
      by (auto simp: handle_gotdata_def plug_receive_def split: sum.splits)
    from sk_calls_trace [OF s] obtain es where
      "trace w' = trace w @ PlugReceive (plug (hs w)) 0 (take (nat len) data) # es" "quiet es"
      by auto
    moreover have "Sk_close \<notin> set react \<longrightarrow> inputdata (hs w') = inputdata (hs w)"
      using sk_calls_no_close [OF s] by simp
    ultimately show ?thesis using r by blast
  qed
  from a b c show ?thesis by blast
qed

theorem handle_gotdata_with_data_witness:
  "handle_gotdata \<lparr>bufchain_prefix_len = length, win_strerror = (\<lambda>e. ''failed''),
                   handle_write = (\<lambda>h data len. len)\<rparr>
     ((make_handle_socket 1 2 0 7 0)\<lparr>hs := (hs (make_handle_socket 1 2 0 7 0))\<lparr>frozen := FREEZING\<rparr>\<rparr>)
     ''CD'' 2 []
   = Inr (2147483647,
       (make_handle_socket 1 2 0 7 0)
          \<lparr>hs := (hs (make_handle_socket 1 2 0 7 0))\<lparr>inputdata := ''CD'', frozen := FROZEN\<rparr>\<rparr>) \<and>
   handle_gotdata \<lparr>bufchain_prefix_len = length, win_strerror = (\<lambda>e. ''failed''),
                   handle_write = (\<lambda>h data len. len)\<rparr>
     (make_handle_socket 1 2 0 7 0) ''AB'' 2 []
   = Inr (0, (make_handle_socket 1 2 0 7 0)\<lparr>trace := [PlugReceive 7 0 ''AB'']\<rparr>)"
proof -
  let ?X = "\<lparr>bufchain_prefix_len = length, win_strerror = (\<lambda>e. ''failed''),
                   handle_write = (\<lambda>h data len. len)\<rparr>"
  let ?w = "make_handle_socket 1 2 0 7 0"
  let ?f = "?w\<lparr>hs := (hs ?w)\<lparr>frozen := FREEZING\<rparr>\<rparr>"
  have l: "live ?w" "live ?f" and n: "(0::int) < 2" by (simp_all add: make_handle_socket_def)
  have s: "frozen (hs ?w) = UNFROZEN" "frozen (hs ?f) = FREEZING" "trace ?w = []"
     "inputdata (hs ?w) = []" "plug (hs ?w) = 7"
    by (simp_all add: make_handle_socket_def bufchain_init_def)
  from handle_gotdata_with_data [OF l(2) n, of ?X "''CD''" "[]"]
       handle_gotdata_with_data [OF l(1) n, of ?X "''AB''"] s
  show ?thesis by (simp add: INT_MAX_def)
qed

text \<open>
  C6. The invariant of the input queue (empty whenever the state is \<open>UNFROZEN\<close>, non-empty
  only in the states \<open>FROZEN\<close> and \<open>THAWING\<close>) holds for a new socket and is kept by
  \<^verbatim>\<open>sk_handle_set_frozen\<close> in every state (which, on an allocated socket with the invariant,
  never fails its assertion), by \<^verbatim>\<open>handle_gotdata\<close> for every length, and by each run of
  \<^verbatim>\<open>handle_socket_unfreeze\<close>, whatever the plug does during a callback; hence it holds
  after every run of events from a new socket.
\<close>

theorem inputdata_invariant_preserved:
  "inputdata_invariant (make_handle_socket sH rH eH p ov) \<and>
   (inputdata_invariant w \<and> sk_handle_set_frozen w is_frozen = Inr w1 \<longrightarrow> inputdata_invariant w1) \<and>
   (live w \<and> inputdata_invariant w \<longrightarrow> (\<exists>w1. sk_handle_set_frozen w is_frozen = Inr w1)) \<and>
   (inputdata_invariant w \<and> handle_gotdata X w data len react = Inr (r, w2) \<longrightarrow> inputdata_invariant w2) \<and>
   (inputdata_invariant w \<and> handle_socket_unfreeze X w react = Inr w3 \<longrightarrow> inputdata_invariant w3) \<and>
   (run X evs (make_handle_socket sH rH eH p ov) = Inr w4 \<longrightarrow> inputdata_invariant w4)"
proof -
  have i: "inputdata_invariant (make_handle_socket sH rH eH p ov)"
    by (simp add: make_handle_socket_def inputdata_invariant_def bufchain_init_def Let_def)
  have a: "inputdata_invariant w \<and> sk_handle_set_frozen w is_frozen = Inr w1 \<longrightarrow> inputdata_invariant w1"
    using sk_call_inputdata_invariant [of X "Sk_set_frozen is_frozen" w w1] by simp
  have b: "live w \<and> inputdata_invariant w \<longrightarrow> (\<exists>w1. sk_handle_set_frozen w is_frozen = Inr w1)"
    using sk_call_total [of w X "Sk_set_frozen is_frozen"] by simp
  have c: "inputdata_invariant w \<and> handle_gotdata X w data len react = Inr (r, w2) \<longrightarrow> inputdata_invariant w2"
    using handle_gotdata_inputdata_invariant by blast
  have d: "inputdata_invariant w \<and> handle_socket_unfreeze X w react = Inr w3 \<longrightarrow> inputdata_invariant w3"
    using handle_socket_unfreeze_inputdata_invariant by blast
  have e: "run X evs (make_handle_socket sH rH eH p ov) = Inr w4 \<longrightarrow> inputdata_invariant w4"
    using run_inputdata_invariant [OF _ i] by blast
  from i a b c d e show ?thesis by blast
qed

theorem inputdata_invariant_preserved_witness:
  "(\<exists>w. sk_handle_set_frozen
          ((make_handle_socket 1 2 0 7 0)
             \<lparr>hs := (hs (make_handle_socket 1 2 0 7 0))\<lparr>frozen := FROZEN, inputdata := ''CD''\<rparr>\<rparr>) 0
        = Inr w \<and> frozen (hs w) = THAWING \<and> inputdata_invariant w) \<and>
   (\<exists>w. handle_gotdata \<lparr>bufchain_prefix_len = (\<lambda>ch. 1), win_strerror = (\<lambda>e. ''failed''),
                        handle_write = (\<lambda>h data len. len)\<rparr>
          ((make_handle_socket 1 2 0 7 0)
             \<lparr>hs := (hs (make_handle_socket 1 2 0 7 0))\<lparr>frozen := FREEZING\<rparr>\<rparr>) ''CD'' 2 []
        = Inr (2147483647, w) \<and> inputdata (hs w) = ''CD'' \<and> inputdata_invariant w) \<and>
   (\<exists>w. handle_socket_unfreeze \<lparr>bufchain_prefix_len = (\<lambda>ch. 1), win_strerror = (\<lambda>e. ''failed''),
                                handle_write = (\<lambda>h data len. len)\<rparr>
          ((make_handle_socket 1 2 0 7 0)
             \<lparr>hs := (hs (make_handle_socket 1 2 0 7 0))\<lparr>frozen := THAWING, inputdata := ''CD''\<rparr>\<rparr>) []
        = Inr w \<and> inputdata (hs w) = ''D'' \<and> inputdata_invariant w) \<and>
   (\<exists>w. run \<lparr>bufchain_prefix_len = (\<lambda>ch. 1), win_strerror = (\<lambda>e. ''failed''),
              handle_write = (\<lambda>h data len. len)\<rparr>
          [Call (Sk_set_frozen 1), Gotdata ''CD'' 2 [], Call (Sk_set_frozen 0), Toplevel_callback []]
          (make_handle_socket 1 2 0 7 0)
        = Inr w \<and> frozen (hs w) = THAWING \<and> inputdata (hs w) = ''D'' \<and> inputdata_invariant w)"
proof -
  let ?X = "\<lparr>bufchain_prefix_len = (\<lambda>ch. 1), win_strerror = (\<lambda>e. ''failed''),
             handle_write = (\<lambda>h data len. len)\<rparr>"
  let ?w = "make_handle_socket 1 2 0 7 0"
  let ?frozen = "?w\<lparr>hs := (hs ?w)\<lparr>frozen := FROZEN, inputdata := ''CD''\<rparr>\<rparr>"
  let ?freezing = "?w\<lparr>hs := (hs ?w)\<lparr>frozen := FREEZING\<rparr>\<rparr>"
  let ?thawing = "?w\<lparr>hs := (hs ?w)\<lparr>frozen := THAWING, inputdata := ''CD''\<rparr>\<rparr>"
  let ?evs = "[Call (Sk_set_frozen 1), Gotdata ''CD'' 2 [], Call (Sk_set_frozen 0), Toplevel_callback []]"
  have i: "inputdata_invariant ?frozen" "inputdata_invariant ?freezing" "inputdata_invariant ?thawing"
    by (simp_all add: inputdata_invariant_def make_handle_socket_def bufchain_init_def)
  have 1: "\<exists>w. sk_handle_set_frozen ?frozen 0 = Inr w \<and> frozen (hs w) = THAWING"
    by (simp add: eval_defs)
  have 2: "\<exists>w. handle_gotdata ?X ?freezing ''CD'' 2 [] = Inr (2147483647, w) \<and> inputdata (hs w) = ''CD''"
    by (simp add: eval_defs)
  have 3: "\<exists>w. handle_socket_unfreeze ?X ?thawing [] = Inr w \<and> inputdata (hs w) = ''D''"
    by (simp add: eval_defs)
  have 4: "\<exists>w. run ?X ?evs ?w = Inr w \<and> frozen (hs w) = THAWING \<and> inputdata (hs w) = ''D''"
    by (simp add: eval_defs)
  from 1 inputdata_invariant_preserved [of 1 2 0 7 0 ?frozen 0] i(1)
  have a: "\<exists>w. sk_handle_set_frozen ?frozen 0 = Inr w \<and> frozen (hs w) = THAWING \<and> inputdata_invariant w"
    by blast
  from 2 inputdata_invariant_preserved [of 1 2 0 7 0 ?freezing _ _ ?X "''CD''" 2 "[]" 2147483647] i(2)
  have b: "\<exists>w. handle_gotdata ?X ?freezing ''CD'' 2 [] = Inr (2147483647, w) \<and>
               inputdata (hs w) = ''CD'' \<and> inputdata_invariant w"
    by blast
  from 3 inputdata_invariant_preserved [of 1 2 0 7 0 ?thawing _ _ ?X _ _ "[]"] i(3)
  have c: "\<exists>w. handle_socket_unfreeze ?X ?thawing [] = Inr w \<and> inputdata (hs w) = ''D'' \<and>
               inputdata_invariant w"
    by blast
  from 4 inputdata_invariant_preserved [of 1 2 0 7 0 _ _ _ ?X _ _ _ _ _ _ ?evs]
  have d: "\<exists>w. run ?X ?evs ?w = Inr w \<and> frozen (hs w) = THAWING \<and> inputdata (hs w) = ''D'' \<and>
               inputdata_invariant w"
    by blast
  from a b c d show ?thesis by blast
qed

text \<open>
  C7. \<^verbatim>\<open>handle_sentdata\<close> on an allocated socket. Given \<open>- e\<close> for an error code \<open>e\<close> (a positive
  \<^verbatim>\<open>int\<close>), its only call is one \<^verbatim>\<open>plug_closing\<close> with the text \<^verbatim>\<open>win_strerror(e)\<close> and the code
  \<open>e\<close>; given a backlog that is not negative, its only call is one \<^verbatim>\<open>plug_sent\<close> with that
  value. Whatever the plug does during the callback, that call is the only call to the
  plug made for the event.
\<close>

theorem handle_sentdata_reports:
  assumes "live w"
  shows
   "(0 < e \<and> e \<le> INT_MAX \<longrightarrow>
       handle_sentdata X w (- e) [] =
         Inr (w\<lparr>trace := trace w @ [PlugClosing (plug (hs w)) (Some (win_strerror X e)) e 0]\<rparr>)) \<and>
    (0 \<le> n \<longrightarrow>
       handle_sentdata X w n [] = Inr (w\<lparr>trace := trace w @ [PlugSent (plug (hs w)) n]\<rparr>)) \<and>
    (handle_sentdata X w n react = Inr w' \<longrightarrow>
       filter is_plug_call (trace w') =
         filter is_plug_call (trace w) @
           [if n < 0
            then PlugClosing (plug (hs w)) (Some (win_strerror X (neg_cint n))) (neg_cint n) 0
            else PlugSent (plug (hs w)) n])"
proof -
  have a: "0 < e \<and> e \<le> INT_MAX \<longrightarrow>
       handle_sentdata X w (- e) [] =
         Inr (w\<lparr>trace := trace w @ [PlugClosing (plug (hs w)) (Some (win_strerror X e)) e 0]\<rparr>)"
    using assms
    by (simp add: handle_sentdata_def plug_closing_def emit_def neg_cint_def INT_MIN_def INT_MAX_def)
  have b: "0 \<le> n \<longrightarrow>
       handle_sentdata X w n [] = Inr (w\<lparr>trace := trace w @ [PlugSent (plug (hs w)) n]\<rparr>)"
    using assms by (simp add: handle_sentdata_def plug_sent_def emit_def)
  have c: "filter is_plug_call (trace w') =
         filter is_plug_call (trace w) @
           [if n < 0
            then PlugClosing (plug (hs w)) (Some (win_strerror X (neg_cint n))) (neg_cint n) 0
            else PlugSent (plug (hs w)) n]"
    if h: "handle_sentdata X w n react = Inr w'"
  proof -
    define ev where "ev = (if n < 0
            then PlugClosing (plug (hs w)) (Some (win_strerror X (neg_cint n))) (neg_cint n) 0
            else PlugSent (plug (hs w)) n)"
    have p: "is_plug_call ev" by (simp add: ev_def)
    from h assms have "sk_calls X react (emit ev w) = Inr w'"
      by (simp add: handle_sentdata_def plug_closing_def plug_sent_def ev_def split: if_splits)
    from sk_calls_trace [OF this] obtain es where "trace w' = trace w @ ev # es" "quiet es"
      by auto
    then show ?thesis using p by (simp add: quiet_filter ev_def [symmetric])
  qed
  from a b c show ?thesis by blast
qed

theorem handle_sentdata_reports_witness:
  "handle_sentdata \<lparr>bufchain_prefix_len = length, win_strerror = (\<lambda>e. if e = 5 then ''Access is denied.'' else ''failed''),
                    handle_write = (\<lambda>h data len. len)\<rparr>
     (make_handle_socket 1 2 0 7 0) (- 5) []
   = Inr ((make_handle_socket 1 2 0 7 0)\<lparr>trace := [PlugClosing 7 (Some ''Access is denied.'') 5 0]\<rparr>) \<and>
   handle_sentdata \<lparr>bufchain_prefix_len = length, win_strerror = (\<lambda>e. if e = 5 then ''Access is denied.'' else ''failed''),
                    handle_write = (\<lambda>h data len. len)\<rparr>
     (make_handle_socket 1 2 0 7 0) 4096 []
   = Inr ((make_handle_socket 1 2 0 7 0)\<lparr>trace := [PlugSent 7 4096]\<rparr>)"
proof -
  let ?X = "\<lparr>bufchain_prefix_len = length, win_strerror = (\<lambda>e. if e = 5 then ''Access is denied.'' else ''failed''),
                    handle_write = (\<lambda>h data len. len)\<rparr>"
  let ?w = "make_handle_socket 1 2 0 7 0"
  have l: "live ?w" and s: "trace ?w = []" "plug (hs ?w) = 7" by (simp_all add: make_handle_socket_def)
  from handle_sentdata_reports [OF l, of 5 ?X 4096] s show ?thesis
    by (simp add: INT_MAX_def)
qed

text \<open>
  C10. \<^verbatim>\<open>sk_handle_plug\<close> on an allocated socket returns the plug registered before the call;
  the registered plug becomes the argument when that is not null and is unchanged (as is
  the whole socket) when it is null. So a socket made with a plug that is not null has a
  plug that is not null after every run of events.
\<close>

theorem sk_handle_plug_returns_previous:
  "(live w \<longrightarrow>
      (\<exists>w'. sk_handle_plug w p = Inr (plug (hs w), w') \<and>
            plug (hs w') = (if p = NULL then plug (hs w) else p) \<and>
            (p = NULL \<longrightarrow> w' = w))) \<and>
   (p0 \<noteq> NULL \<and> run X evs (make_handle_socket sH rH eH p0 ov) = Inr w4 \<longrightarrow> plug (hs w4) \<noteq> NULL)"
proof -
  have a: "live w \<longrightarrow>
      (\<exists>w'. sk_handle_plug w p = Inr (plug (hs w), w') \<and>
            plug (hs w') = (if p = NULL then plug (hs w) else p) \<and>
            (p = NULL \<longrightarrow> w' = w))"
    by (simp add: sk_handle_plug_def Let_def)
  have "plug (hs (make_handle_socket sH rH eH p0 ov)) = p0"
    by (simp add: make_handle_socket_def Let_def)
  then have b: "p0 \<noteq> NULL \<and> run X evs (make_handle_socket sH rH eH p0 ov) = Inr w4 \<longrightarrow> plug (hs w4) \<noteq> NULL"
    using run_plug [of X evs "make_handle_socket sH rH eH p0 ov" w4] by auto
  from a b show ?thesis by blast
qed

theorem sk_handle_plug_returns_previous_witness:
  "sk_handle_plug (make_handle_socket 1 2 0 7 0) 9
     = Inr (7, (make_handle_socket 1 2 0 7 0)\<lparr>hs := (hs (make_handle_socket 1 2 0 7 0))\<lparr>plug := 9\<rparr>\<rparr>) \<and>
   sk_handle_plug (make_handle_socket 1 2 0 7 0) NULL = Inr (7, make_handle_socket 1 2 0 7 0) \<and>
   (\<exists>w. run \<lparr>bufchain_prefix_len = length, win_strerror = (\<lambda>e. ''failed''),
              handle_write = (\<lambda>h data len. len)\<rparr>
           [Call (Sk_plug NULL), Call (Sk_plug 9), Call (Sk_plug NULL)] (make_handle_socket 1 2 0 7 0)
         = Inr w \<and> plug (hs w) = 9 \<and> plug (hs w) \<noteq> NULL)"
proof -
  let ?X = "\<lparr>bufchain_prefix_len = length, win_strerror = (\<lambda>e. ''failed''),
              handle_write = (\<lambda>h data len. len)\<rparr>"
  let ?w = "make_handle_socket 1 2 0 7 0"
  let ?evs = "[Call (Sk_plug NULL), Call (Sk_plug 9), Call (Sk_plug NULL)]"
  have l: "live ?w" "plug (hs ?w) = 7" by (simp_all add: make_handle_socket_def)
  have r: "\<exists>w. run ?X ?evs ?w = Inr w \<and> plug (hs w) = 9" by (simp add: eval_defs)
  have n: "(7::nat) \<noteq> NULL" "(9::nat) \<noteq> NULL" by (simp_all add: NULL_def)
  have a: "sk_handle_plug ?w 9 = Inr (7, ?w\<lparr>hs := (hs ?w)\<lparr>plug := 9\<rparr>\<rparr>)"
    by (simp add: sk_handle_plug_def make_handle_socket_def NULL_def Let_def)
  have b: "sk_handle_plug ?w NULL = Inr (7, ?w)"
    using sk_handle_plug_returns_previous [of ?w NULL] l by auto
  have c: "\<exists>w. run ?X ?evs ?w = Inr w \<and> plug (hs w) = 9 \<and> plug (hs w) \<noteq> NULL"
    using r sk_handle_plug_returns_previous [of _ _ 7 ?X ?evs 1 2 0 0] n by blast
  from a b c show ?thesis by blast
qed

text \<open>
  C4, as stated, fails on the direct path of \<^verbatim>\<open>handle_gotdata\<close>. While that \<^verbatim>\<open>plug_receive\<close> is
  running \<^verbatim>\<open>defer_close\<close> is not set, so a \<^verbatim>\<open>sk_handle_close\<close> called from inside it does not
  record anything: it releases and frees the socket at once, before the callback returns;
  \<^verbatim>\<open>deferred_close\<close> is never set.
\<close>
theorem close_in_receive_counterexample:
  "defer_close (hs (emit (PlugReceive 7 0 ''A'') (make_handle_socket 1 2 0 7 0))) = False \<and>
   sk_handle_close (emit (PlugReceive 7 0 ''A'') (make_handle_socket 1 2 0 7 0))
     = Inr ((make_handle_socket 1 2 0 7 0)
        \<lparr>live := False,
          trace := [PlugReceive 7 0 ''A'',
                    HandleFree (Handle_output_new 1 Cb_handle_sentdata []),
                    HandleFree (Handle_input_new 2 Cb_handle_gotdata []),
                    CloseHandle 1, CloseHandle 2,
                    BufchainClear Inputdata, BufchainClear Stderrdata, Sfree]\<rparr>) \<and>
   handle_gotdata \<lparr>bufchain_prefix_len = length, win_strerror = (\<lambda>e. ''failed''),
                   handle_write = (\<lambda>h data len. len)\<rparr>
     (make_handle_socket 1 2 0 7 0) ''A'' 1 [Sk_close]
     = Inr (0, (make_handle_socket 1 2 0 7 0)
        \<lparr>live := False,
          trace := [PlugReceive 7 0 ''A'',
                    HandleFree (Handle_output_new 1 Cb_handle_sentdata []),
                    HandleFree (Handle_input_new 2 Cb_handle_gotdata []),
                    CloseHandle 1, CloseHandle 2,
                    BufchainClear Inputdata, BufchainClear Stderrdata, Sfree]\<rparr>) \<and>
   deferred_close (hs (make_handle_socket 1 2 0 7 0)) = False"
  by (simp add: eval_defs)

text \<open>
  C4, amended. A close is deferred only around the \<^verbatim>\<open>plug_receive\<close> of
  \<^verbatim>\<open>handle_socket_unfreeze\<close>. On an allocated socket with no close pending:
  while \<^verbatim>\<open>defer_close\<close> is set, \<^verbatim>\<open>sk_handle_close\<close> only sets \<^verbatim>\<open>deferred_close\<close>: nothing is
  released or freed and nothing is called. A run of \<^verbatim>\<open>handle_socket_unfreeze\<close> in state
  \<open>THAWING\<close> with a block to hand over always returns, whatever the plug calls during the
  callback (the socket is never touched after being freed). If the plug called close (once
  or several times), the run ends with the tear-down, done once, after \<^verbatim>\<open>plug_receive\<close> and
  everything the plug called during it, and the socket is freed; nothing called during
  the callback released anything. If the plug did not call close, the socket stays
  allocated with no close pending. On the direct path of \<^verbatim>\<open>handle_gotdata\<close>, where
  \<^verbatim>\<open>defer_close\<close> is not set, a plug that calls close during \<^verbatim>\<open>plug_receive\<close> tears the socket
  down at once, once, and \<^verbatim>\<open>handle_gotdata\<close> returns 0 without touching the socket again.
\<close>

theorem close_deferred_in_unfreeze:
  assumes "live w" "\<not> deferred_close (hs w)"
  shows
   "(defer_close (hs w) \<longrightarrow>
       sk_handle_close w = Inr (w\<lparr>hs := (hs w)\<lparr>deferred_close := True\<rparr>\<rparr>)) \<and>
    (frozen (hs w) = THAWING \<and>
     take (bufchain_prefix_len X (inputdata (hs w))) (inputdata (hs w)) \<noteq> [] \<longrightarrow>
       (\<exists>w' es. handle_socket_unfreeze X w react = Inr w' \<and> harmless es \<and>
          (if Sk_close \<in> set react
           then \<not> live w' \<and>
                trace w' = trace w @
                  PlugReceive (plug (hs w)) 0
                    (take (bufchain_prefix_len X (inputdata (hs w))) (inputdata (hs w))) # es @
                  [HandleFree (send_h (hs w)), HandleFree (recv_h (hs w)),
                   CloseHandle (send_H (hs w))] @
                  (if recv_H (hs w) \<noteq> send_H (hs w) then [CloseHandle (recv_H (hs w))] else []) @
                  [BufchainClear Inputdata, BufchainClear Stderrdata, Sfree]
           else live w' \<and> \<not> defer_close (hs w') \<and> \<not> deferred_close (hs w') \<and>
                (\<exists>e. \<not> is_teardown e \<and> \<not> is_plug_call e \<and>
                   trace w' = trace w @
                     PlugReceive (plug (hs w)) 0
                       (take (bufchain_prefix_len X (inputdata (hs w))) (inputdata (hs w))) # es @ [e])))) \<and>
    (\<not> defer_close (hs w) \<and> frozen (hs w) = UNFROZEN \<and> 0 < len \<longrightarrow>
       (\<exists>w'. handle_gotdata X w data len [Sk_close] = Inr (0, w') \<and>
             \<not> live w' \<and> \<not> deferred_close (hs w') \<and>
             trace w' = trace w @
               PlugReceive (plug (hs w)) 0 (take (nat len) data) #
               [HandleFree (send_h (hs w)), HandleFree (recv_h (hs w)),
                CloseHandle (send_H (hs w))] @
               (if recv_H (hs w) \<noteq> send_H (hs w) then [CloseHandle (recv_H (hs w))] else []) @
               [BufchainClear Inputdata, BufchainClear Stderrdata, Sfree]))"
proof -
  have a: "defer_close (hs w) \<longrightarrow>
       sk_handle_close w = Inr (w\<lparr>hs := (hs w)\<lparr>deferred_close := True\<rparr>\<rparr>)"
    using assms(1) by (simp add: sk_handle_close_def)
  have c: "\<not> defer_close (hs w) \<and> frozen (hs w) = UNFROZEN \<and> 0 < len \<longrightarrow>
       (\<exists>w'. handle_gotdata X w data len [Sk_close] = Inr (0, w') \<and>
             \<not> live w' \<and> \<not> deferred_close (hs w') \<and>
             trace w' = trace w @
               PlugReceive (plug (hs w)) 0 (take (nat len) data) #
               [HandleFree (send_h (hs w)), HandleFree (recv_h (hs w)),
                CloseHandle (send_H (hs w))] @
               (if recv_H (hs w) \<noteq> send_H (hs w) then [CloseHandle (recv_H (hs w))] else []) @
               [BufchainClear Inputdata, BufchainClear Stderrdata, Sfree])"
    using assms
    by (simp add: handle_gotdata_def plug_receive_def sk_handle_close_def emit_def
        bufchain_clear_def Let_def)
  have b: "\<exists>w' es. handle_socket_unfreeze X w react = Inr w' \<and> harmless es \<and>
          (if Sk_close \<in> set react
           then \<not> live w' \<and>
                trace w' = trace w @
                  PlugReceive (plug (hs w)) 0
                    (take (bufchain_prefix_len X (inputdata (hs w))) (inputdata (hs w))) # es @
                  [HandleFree (send_h (hs w)), HandleFree (recv_h (hs w)),
                   CloseHandle (send_H (hs w))] @
                  (if recv_H (hs w) \<noteq> send_H (hs w) then [CloseHandle (recv_H (hs w))] else []) @
                  [BufchainClear Inputdata, BufchainClear Stderrdata, Sfree]
           else live w' \<and> \<not> defer_close (hs w') \<and> \<not> deferred_close (hs w') \<and>
                (\<exists>e. \<not> is_teardown e \<and> \<not> is_plug_call e \<and>
                   trace w' = trace w @
                     PlugReceive (plug (hs w)) 0
                       (take (bufchain_prefix_len X (inputdata (hs w))) (inputdata (hs w))) # es @ [e]))"
    if t: "frozen (hs w) = THAWING"
      and pn: "take (bufchain_prefix_len X (inputdata (hs w))) (inputdata (hs w)) \<noteq> []"
  proof -
    define p where "p = take (bufchain_prefix_len X (inputdata (hs w))) (inputdata (hs w))"
    have pn': "p \<noteq> []" using pn by (simp add: p_def)
    from handle_socket_unfreeze_thawing [OF assms(1) t p_def pn', of react] obtain w1 es where
      k: "sk_calls X react (emit (PlugReceive (plug (hs w)) 0 p) (w\<lparr>hs := (hs w)\<lparr>defer_close := True\<rparr>\<rparr>))
          = Inr w1"
         "live w1" "deferred_close (hs w1) = (deferred_close (hs w) \<or> Sk_close \<in> set react)"
         "trace w1 = trace w @ PlugReceive (plug (hs w)) 0 p # es" "harmless es" and
      u: "handle_socket_unfreeze X w react =
          (let w3 = w1\<lparr>hs := (hs w1)\<lparr>inputdata := drop (length p) (inputdata (hs w)),
                                          defer_close := False\<rparr>\<rparr>
           in if deferred_close (hs w3) then sk_handle_close w3
              else if drop (length p) (inputdata (hs w)) \<noteq> [] then Inr (emit QueueToplevelCallback w3)
              else Inr (emit (HandleUnthrottle (recv_h (hs w3)) 0)
                          (w3\<lparr>hs := (hs w3)\<lparr>frozen := UNFROZEN\<rparr>\<rparr>)))"
      by blast
    have h: "send_h (hs w1) = send_h (hs w)" "recv_h (hs w1) = recv_h (hs w)"
      "send_H (hs w1) = send_H (hs w)" "recv_H (hs w1) = recv_H (hs w)"
      using sk_calls_handles [OF k(1)] by simp_all
    show ?thesis
    proof (cases "Sk_close \<in> set react")
      case True
      with k(3) have "deferred_close (hs w1)" by simp
      with u k(2,4) h True have
        "\<exists>w'. handle_socket_unfreeze X w react = Inr w' \<and> \<not> live w' \<and>
           trace w' = trace w @ PlugReceive (plug (hs w)) 0 p # es @
                  [HandleFree (send_h (hs w)), HandleFree (recv_h (hs w)),
                   CloseHandle (send_H (hs w))] @
                  (if recv_H (hs w) \<noteq> send_H (hs w) then [CloseHandle (recv_H (hs w))] else []) @
                  [BufchainClear Inputdata, BufchainClear Stderrdata, Sfree]"
        by (simp add: sk_handle_close_def emit_def bufchain_clear_def Let_def)
      with True k(5) show ?thesis unfolding p_def by auto
    next
      case False
      with k(3) assms(2) have nd: "\<not> deferred_close (hs w1)" by simp
      define e where "e = (if drop (length p) (inputdata (hs w)) \<noteq> [] then QueueToplevelCallback
                           else HandleUnthrottle (recv_h (hs w1)) 0)"
      have e: "\<not> is_teardown e" "\<not> is_plug_call e" by (simp_all add: e_def)
      from u nd k(2,4) have
        "\<exists>w'. handle_socket_unfreeze X w react = Inr w' \<and> live w' \<and> \<not> defer_close (hs w') \<and>
           \<not> deferred_close (hs w') \<and>
           trace w' = trace w @ PlugReceive (plug (hs w)) 0 p # es @ [e]"
        by (simp add: e_def Let_def)
      with False k(5) e show ?thesis unfolding p_def by auto
    qed
  qed
  from a b c show ?thesis by blast
qed

theorem close_deferred_in_unfreeze_witness:
  "map_sum id (\<lambda>w. (live w, trace w))
     (handle_socket_unfreeze \<lparr>bufchain_prefix_len = (\<lambda>ch. 1), win_strerror = (\<lambda>e. ''failed''),
                              handle_write = (\<lambda>h data len. len)\<rparr>
        ((make_handle_socket 1 2 0 7 0)
           \<lparr>hs := (hs (make_handle_socket 1 2 0 7 0))\<lparr>frozen := THAWING, inputdata := ''CD''\<rparr>\<rparr>)
        [Sk_close, Sk_write ''ok'' 2, Sk_close])
   = Inr (False,
          [PlugReceive 7 0 ''C'',
           HandleWrite (Handle_output_new 1 Cb_handle_sentdata []) ''ok'' 2,
           HandleFree (Handle_output_new 1 Cb_handle_sentdata []),
           HandleFree (Handle_input_new 2 Cb_handle_gotdata []),
           CloseHandle 1, CloseHandle 2,
           BufchainClear Inputdata, BufchainClear Stderrdata, Sfree])"
proof -
  let ?X = "\<lparr>bufchain_prefix_len = (\<lambda>ch. 1), win_strerror = (\<lambda>e. ''failed''),
             handle_write = (\<lambda>h data len. len)\<rparr>"
  let ?w = "(make_handle_socket 1 2 0 7 0)
           \<lparr>hs := (hs (make_handle_socket 1 2 0 7 0))\<lparr>frozen := THAWING, inputdata := ''CD''\<rparr>\<rparr>"
  let ?react = "[Sk_close, Sk_write ''ok'' 2, Sk_close]"
  have l: "live ?w" "\<not> deferred_close (hs ?w)" by (simp_all add: make_handle_socket_def)
  have t: "frozen (hs ?w) = THAWING"
    "take (bufchain_prefix_len ?X (inputdata (hs ?w))) (inputdata (hs ?w)) \<noteq> []"
    by simp_all
  from close_deferred_in_unfreeze [OF l, of ?X ?react] t
  obtain w' es where
    "handle_socket_unfreeze ?X ?w ?react = Inr w'" "\<not> live w'" by auto
  moreover have "map_sum id trace (handle_socket_unfreeze ?X ?w ?react) =
     Inr [PlugReceive 7 0 ''C'',
           HandleWrite (Handle_output_new 1 Cb_handle_sentdata []) ''ok'' 2,
           HandleFree (Handle_output_new 1 Cb_handle_sentdata []),
           HandleFree (Handle_input_new 2 Cb_handle_gotdata []),
           CloseHandle 1, CloseHandle 2,
           BufchainClear Inputdata, BufchainClear Stderrdata, Sfree]"
    by (simp add: eval_defs)
  ultimately show ?thesis by auto
qed

text \<open>
  C5, as stated, fails: on a socket made with a side handle, a close that is not deferred
  releases the send worker first and the receive worker second, and never releases the
  worker registered for the side handle.
\<close>
theorem close_order_counterexample:
  "stderr_h (hs (make_handle_socket 1 2 3 7 0)) = Some (Handle_input_new 3 Cb_handle_stderr []) \<and>
   map_sum id trace (sk_handle_close (make_handle_socket 1 2 3 7 0)) =
     Inr [HandleFree (Handle_output_new 1 Cb_handle_sentdata []),
          HandleFree (Handle_input_new 2 Cb_handle_gotdata []),
          CloseHandle 1, CloseHandle 2,
          BufchainClear Inputdata, BufchainClear Stderrdata, Sfree]"
  by (simp add: eval_defs)

text \<open>
  C5, amended. On an allocated socket with \<^verbatim>\<open>defer_close\<close> not set, \<^verbatim>\<open>sk_handle_close\<close> makes
  these calls, in this order: it releases the send (write) worker, then the receive (read)
  worker, closes the send handle, closes the receive handle when it is a different handle,
  clears the input queue, then the side queue, and frees the socket. Both queues are empty
  afterwards.
\<close>

theorem sk_handle_close_order:
  assumes "live w" "\<not> defer_close (hs w)"
  shows "\<exists>w'. sk_handle_close w = Inr w' \<and> \<not> live w' \<and>
           inputdata (hs w') = [] \<and> stderrdata (hs w') = [] \<and>
           trace w' = trace w @
             [HandleFree (send_h (hs w)), HandleFree (recv_h (hs w)), CloseHandle (send_H (hs w))] @
             (if recv_H (hs w) \<noteq> send_H (hs w) then [CloseHandle (recv_H (hs w))] else []) @
             [BufchainClear Inputdata, BufchainClear Stderrdata, Sfree]"
  using assms by (simp add: sk_handle_close_def emit_def bufchain_clear_def Let_def)

theorem sk_handle_close_order_witness:
  "(\<exists>w'. sk_handle_close (make_handle_socket 1 1 0 7 0) = Inr w' \<and> \<not> live w' \<and>
      trace w' = [HandleFree (Handle_output_new 1 Cb_handle_sentdata []),
                  HandleFree (Handle_input_new 1 Cb_handle_gotdata []),
                  CloseHandle 1,
                  BufchainClear Inputdata, BufchainClear Stderrdata, Sfree])"
proof -
  let ?w = "make_handle_socket 1 1 0 7 0"
  have l: "live ?w" "\<not> defer_close (hs ?w)" by (simp_all add: make_handle_socket_def)
  have s: "trace ?w = []" "send_h (hs ?w) = Handle_output_new 1 Cb_handle_sentdata []"
    "recv_h (hs ?w) = Handle_input_new 1 Cb_handle_gotdata []" "send_H (hs ?w) = 1" "recv_H (hs ?w) = 1"
    by (simp_all add: make_handle_socket_def)
  from sk_handle_close_order [OF l] s show ?thesis by auto
qed


text \<open>
  C8, as stated, fails: after \<^verbatim>\<open>handle_gotdata\<close> has reported a read failure, and after
  \<^verbatim>\<open>handle_sentdata\<close> has reported a write failure, \<^verbatim>\<open>sk_handle_socket_error\<close> returns the null
  pointer: the description went to \<^verbatim>\<open>plug_closing\<close> only.
\<close>
theorem socket_error_counterexample:
  "handle_gotdata \<lparr>bufchain_prefix_len = length, win_strerror = (\<lambda>e. ''Access is denied.''),
                   handle_write = (\<lambda>h data len. len)\<rparr>
     (make_handle_socket 1 2 0 7 0) [] (- 1) []
     = Inr (0, (make_handle_socket 1 2 0 7 0)
                 \<lparr>trace := [PlugClosing 7 (Some ''Read error from handle'') 0 0]\<rparr>) \<and>
   sk_handle_socket_error
     ((make_handle_socket 1 2 0 7 0)\<lparr>trace := [PlugClosing 7 (Some ''Read error from handle'') 0 0]\<rparr>)
     = Inr None \<and>
   handle_sentdata \<lparr>bufchain_prefix_len = length, win_strerror = (\<lambda>e. ''Access is denied.''),
                    handle_write = (\<lambda>h data len. len)\<rparr>
     (make_handle_socket 1 2 0 7 0) (- 5) []
     = Inr ((make_handle_socket 1 2 0 7 0)\<lparr>trace := [PlugClosing 7 (Some ''Access is denied.'') 5 0]\<rparr>) \<and>
   sk_handle_socket_error
     ((make_handle_socket 1 2 0 7 0)\<lparr>trace := [PlugClosing 7 (Some ''Access is denied.'') 5 0]\<rparr>)
     = Inr None"
  by (simp add: eval_defs)

text \<open>
  C8, amended. \<^verbatim>\<open>sk_handle_socket_error\<close> returns the field \<^verbatim>\<open>error\<close>, which is null in a new
  socket and which nothing in the file assigns: after every run of events from a new
  socket the field is null, and on a socket still allocated \<^verbatim>\<open>sk_handle_socket_error\<close>
  returns null, also after read and write failures.
\<close>

theorem sk_handle_socket_error_none:
  assumes "run X evs (make_handle_socket sH rH eH p ov) = Inr w"
  shows "error (hs w) = None \<and> (live w \<longrightarrow> sk_handle_socket_error w = Inr None)"
proof -
  have "error (hs (make_handle_socket sH rH eH p ov)) = None"
    by (simp add: make_handle_socket_def Let_def)
  with run_error [OF assms] have "error (hs w) = None" by simp
  then show ?thesis by (simp add: sk_handle_socket_error_def)
qed

theorem sk_handle_socket_error_none_witness:
  "\<exists>w. run \<lparr>bufchain_prefix_len = length, win_strerror = (\<lambda>e. ''Access is denied.''),
             handle_write = (\<lambda>h data len. len)\<rparr>
          [Sentdata (- 5) [], Gotdata [] (- 1) []] (make_handle_socket 1 2 0 7 0) = Inr w \<and>
        live w \<and> sk_handle_socket_error w = Inr None"
proof -
  let ?X = "\<lparr>bufchain_prefix_len = length, win_strerror = (\<lambda>e. ''Access is denied.''),
             handle_write = (\<lambda>h data len. len)\<rparr>"
  let ?evs = "[Sentdata (- 5) [], Gotdata [] (- 1) []]"
  have "\<exists>w. run ?X ?evs (make_handle_socket 1 2 0 7 0) = Inr w \<and> live w"
    by (simp add: eval_defs)
  then obtain w where w: "run ?X ?evs (make_handle_socket 1 2 0 7 0) = Inr w" "live w" by blast
  from sk_handle_socket_error_none [OF w(1)] w show ?thesis by blast
qed


text \<open>
  C9, as stated, fails: \<^verbatim>\<open>sk_handle_write\<close> with no bytes still calls \<^verbatim>\<open>handle_write\<close> on the
  send worker.
\<close>
theorem empty_write_counterexample:
  "sk_handle_write \<lparr>bufchain_prefix_len = length, win_strerror = (\<lambda>e. ''failed''),
                    handle_write = (\<lambda>h data len. 4096 + len)\<rparr>
     (make_handle_socket 1 2 0 7 0) [] 0
   = Inr (4096, (make_handle_socket 1 2 0 7 0)
                  \<lparr>trace := [HandleWrite (Handle_output_new 1 Cb_handle_sentdata []) [] 0]\<rparr>)"
  by (simp add: eval_defs)

text \<open>
  C9, amended. \<^verbatim>\<open>sk_handle_write\<close> on an allocated socket makes exactly one call,
  \<^verbatim>\<open>handle_write\<close> on the send worker with the data and length it was given, whether or not
  the length is 0, and returns what that call returns.
\<close>

theorem sk_handle_write_forwards:
  assumes "live w"
  shows "sk_handle_write X w data len =
           Inr (handle_write X (send_h (hs w)) data len,
                w\<lparr>trace := trace w @ [HandleWrite (send_h (hs w)) data len]\<rparr>)"
  using assms by (simp add: sk_handle_write_def emit_def)

theorem sk_handle_write_forwards_witness:
  "sk_handle_write \<lparr>bufchain_prefix_len = length, win_strerror = (\<lambda>e. ''failed''),
                    handle_write = (\<lambda>h data len. 4096 + len)\<rparr>
     (make_handle_socket 1 2 0 7 0) ''AB'' 2
   = Inr (4098, (make_handle_socket 1 2 0 7 0)
                  \<lparr>trace := [HandleWrite (Handle_output_new 1 Cb_handle_sentdata []) ''AB'' 2]\<rparr>)"
proof -
  let ?X = "\<lparr>bufchain_prefix_len = length, win_strerror = (\<lambda>e. ''failed''),
                    handle_write = (\<lambda>h data len. 4096 + len)\<rparr>"
  let ?w = "make_handle_socket 1 2 0 7 0"
  have l: "live ?w" and s: "trace ?w = []" "send_h (hs ?w) = Handle_output_new 1 Cb_handle_sentdata []"
    by (simp_all add: make_handle_socket_def)
  from sk_handle_write_forwards [OF l, of ?X "''AB''" 2] s show ?thesis by simp
qed


end
